theory Spec2Isabelle
  imports Complex_Main "HOL-Library.Log_Nat"
begin

section \<open>Python values used by the ledger\<close>

text \<open>
  A Python \<open>str\<close> is a sequence of Unicode code points; it is modelled as a list of
  natural numbers, so that the Cyrillic category labels and the Unicode classes of
  \<open>\d\<close>, \<open>int()\<close> and \<open>float()\<close> are what they are in Python. \<open>pystr\<close> writes an
  ASCII literal.
\<close>

type_synonym str = "nat list"

definition pystr :: "string \<Rightarrow> str" where
  "pystr s = map of_char s"

text \<open>
  The exceptions the modelled code can raise; \<open>CsvError\<close> is \<open>_csv.Error\<close>.
\<close>

datatype error =
    FileNotFoundError | IndexError | ValueError | EOFError
  | UnicodeEncodeError | UnicodeDecodeError | CsvError

text \<open>
  The code points with the Unicode property \<open>Decimal\<close> (general category Nd, Unicode
  14.0 as in CPython 3.11) come in runs of ten, each starting at a zero; this is the
  class \<open>\d\<close> of the \<open>re\<close> module on \<open>str\<close> patterns, and the class of digits that
  \<open>int()\<close> and \<open>float()\<close> read. \<open>decimal_zeros\<close> lists the zeros.
\<close>

definition decimal_zeros :: "nat list" where
  "decimal_zeros =
    [48, 1632, 1776, 1984, 2406, 2534, 2662, 2790, 2918, 3046, 3174, 3302, 3430, 3558,
     3664, 3792, 3872, 4160, 4240, 6112, 6160, 6470, 6608, 6784, 6800, 6992, 7088, 7232,
     7248, 42528, 43216, 43264, 43472, 43504, 43600, 44016, 65296, 66720, 68912, 69734,
     69872, 69942, 70096, 70384, 70736, 70864, 71248, 71360, 71472, 71904, 72016, 72784,
     73040, 73120, 92768, 92864, 93008, 120782, 120792, 120802, 120812, 120822, 123200,
     123632, 125264, 130032]"

definition is_decimal :: "nat \<Rightarrow> bool" where
  "is_decimal c = list_ex (\<lambda>z. z \<le> c \<and> c < z + 10) decimal_zeros"

definition is_ascii_digit :: "nat \<Rightarrow> bool" where
  "is_ascii_digit c = (48 \<le> c \<and> c \<le> 57)"

section \<open>Regular expressions: \<open>re.compile\<close> and \<open>Pattern.match\<close>\<close>

text \<open>
  The fragment of the \<open>re\<close> syntax that the two patterns of \<open>main.py\<close> use: \<open>\d\<close>, a
  literal character, a character set \<open>[...]\<close> (a list of ranges, a single character
  being a range of one), concatenation, alternation \<open>|\<close>, the counted repetition
  \<open>{n}\<close>, the greedy \<open>+\<close>, and the anchors \<open>^\<close> and \<open>$\<close> (no flags are given, so \<open>^\<close>
  holds at the start of the string only and \<open>$\<close> at its end or just before a newline
  that ends it).
\<close>

datatype regex =
    Digit
  | Chr nat
  | Cls "(nat \<times> nat) list"
  | Seq regex regex
  | Alt regex regex
  | Times nat regex
  | Plus regex
  | Bol
  | Eol

fun rsize :: "regex \<Rightarrow> nat" where
  "rsize (Seq a b) = Suc (rsize a + rsize b)"
| "rsize (Alt a b) = Suc (rsize a + rsize b)"
| "rsize (Times n r) = Suc (n + rsize r)"
| "rsize (Plus r) = Suc (rsize r)"
| "rsize _ = 0"

text \<open>
  A matcher state is the position reached and the text still to read. \<open>ms r s\<close> lists
  the states in which a match of \<open>r\<close> started in \<open>s\<close> can end, in the order in which the
  backtracking matcher of \<open>re\<close> tries them: the left alternative first, the longest
  repetition first.
\<close>

type_synonym mstate = "nat \<times> str"

function (sequential) ms :: "regex \<Rightarrow> mstate \<Rightarrow> mstate list" where
  "ms Digit (p, c # cs) = (if is_decimal c then [(Suc p, cs)] else [])"
| "ms Digit (p, []) = []"
| "ms (Chr a) (p, c # cs) = (if c = a then [(Suc p, cs)] else [])"
| "ms (Chr a) (p, []) = []"
| "ms (Cls rs) (p, c # cs) =
     (if list_ex (\<lambda>(lo, hi). lo \<le> c \<and> c \<le> hi) rs then [(Suc p, cs)] else [])"
| "ms (Cls rs) (p, []) = []"
| "ms (Seq a b) s = concat (map (ms b) (ms a s))"
| "ms (Alt a b) s = ms a s @ ms b s"
| "ms (Times 0 r) s = [s]"
| "ms (Times (Suc n) r) s = concat (map (ms (Times n r)) (ms r s))"
| "ms (Plus r) (p, cs) =
     concat (map (\<lambda>s'. (if length (snd s') < length cs then ms (Plus r) s' else []) @ [s'])
                 (ms r (p, cs)))"
| "ms Bol (p, cs) = (if p = 0 then [(p, cs)] else [])"
| "ms Eol (p, cs) = (if cs = [] \<or> cs = [10] then [(p, cs)] else [])"
  by pat_completeness auto
termination
  by (relation "inv_image (less_than <*lex*> less_than) (\<lambda>(r, s). (rsize r, length (snd s)))")
     auto

text \<open>
  \<open>Pattern.match(string)\<close> looks for a match at the start of the string (it need not
  reach the end) and returns a match object or \<open>None\<close>; the model returns the end
  position of the match that \<open>re\<close> finds. The code only tests the result for truth.
\<close>

definition pattern_match :: "regex \<Rightarrow> str \<Rightarrow> nat option" where
  "pattern_match r s = (case ms r (0, s) of [] \<Rightarrow> None | (e, _) # _ \<Rightarrow> Some e)"

text \<open>
  \<^verbatim>\<open>DATE_PATTERN = re.compile(r"\d{4}-(0[1-9]|1[0-2])-(0[1-9]|[12]\d|3[01])")\<close>
  \<^verbatim>\<open>AMOUNT_PATTERN = re.compile(r"^\d+$")\<close>
\<close>

definition DATE_PATTERN :: regex where
  "DATE_PATTERN =
     Seq (Times 4 Digit)
    (Seq (Chr (of_char CHR ''-''))
    (Seq (Alt (Seq (Chr (of_char CHR ''0'')) (Cls [(of_char CHR ''1'', of_char CHR ''9'')]))
              (Seq (Chr (of_char CHR ''1'')) (Cls [(of_char CHR ''0'', of_char CHR ''2'')])))
    (Seq (Chr (of_char CHR ''-''))
         (Alt (Seq (Chr (of_char CHR ''0'')) (Cls [(of_char CHR ''1'', of_char CHR ''9'')]))
         (Alt (Seq (Cls [(of_char CHR ''1'', of_char CHR ''1''),
                         (of_char CHR ''2'', of_char CHR ''2'')]) Digit)
              (Seq (Chr (of_char CHR ''3''))
                   (Cls [(of_char CHR ''0'', of_char CHR ''0''),
                         (of_char CHR ''1'', of_char CHR ''1'')])))))))"

definition AMOUNT_PATTERN :: regex where
  "AMOUNT_PATTERN = Seq Bol (Seq (Plus Digit) Eol)"

section \<open>Conversions between text and integers\<close>

text \<open>
  A field handed to \<open>csv.writer\<close> is a \<open>str\<close> or a number: \<open>check_amount_input\<close>
  returns an \<open>int\<close>, and that is what \<open>main.py\<close> and \<open>test.py\<close> pass as the amount.
  Python integers are unbounded (the model has no \<open>bool\<close> and no \<open>float\<close> among the
  values written). The writer turns a number into text with \<open>str()\<close>, which in
  CPython 3.11 raises \<open>ValueError\<close> for an integer of more than 4300 digits, as \<open>int()\<close>
  does for a text of more than 4300 digits (\<open>sys.get_int_max_str_digits()\<close>, the
  default).
\<close>

datatype pyval = PStr str | PInt int

fun dec_digits :: "nat \<Rightarrow> str" where
  "dec_digits n = (if n < 10 then [48 + n] else dec_digits (n div 10) @ [48 + n mod 10])"

definition str_of_int :: "int \<Rightarrow> str" where
  "str_of_int i = (if i < 0 then 45 # dec_digits (nat (- i)) else dec_digits (nat i))"

definition max_str_digits :: nat where
  "max_str_digits = 4300"

text \<open>
  \<open>field_text\<close> is the text of a value; \<open>py_str\<close> is the conversion the writer makes
  (\<open>str()\<close> for an \<open>int\<close>, the value itself for a \<open>str\<close>), with its error.
\<close>

fun field_text :: "pyval \<Rightarrow> str" where
  "field_text (PStr s) = s"
| "field_text (PInt i) = str_of_int i"

fun py_str :: "pyval \<Rightarrow> error + str" where
  "py_str (PStr s) = Inr s"
| "py_str (PInt i) =
     (if 10 ^ max_str_digits \<le> \<bar>i\<bar> then Inl ValueError else Inr (str_of_int i))"

text \<open>
  \<open>int(s)\<close> and \<open>float(s)\<close> first replace every code point from 127 on: a Unicode space
  by a blank, a decimal digit by the ASCII digit of its value, anything else by \<open>?\<close>
  (after which no number syntax accepts the text). Then they drop the white space of
  \<open>Py_ISSPACE\<close> at both ends. An underscore may stand between two digits only.
\<close>

definition unicode_spaces :: "nat list" where
  "unicode_spaces =
    [133, 160, 5760, 8192, 8193, 8194, 8195, 8196, 8197, 8198, 8199, 8200, 8201, 8202,
     8232, 8233, 8239, 8287, 12288]"

definition decimal_value :: "nat \<Rightarrow> nat" where
  "decimal_value c =
     (case find (\<lambda>z. z \<le> c \<and> c < z + 10) decimal_zeros of Some z \<Rightarrow> c - z | None \<Rightarrow> 0)"

definition to_ascii_char :: "nat \<Rightarrow> nat" where
  "to_ascii_char c =
     (if c < 127 then c
      else if List.member unicode_spaces c then 32
      else if is_decimal c then 48 + decimal_value c
      else 63)"

definition is_py_space :: "nat \<Rightarrow> bool" where
  "is_py_space c = (c = 32 \<or> (9 \<le> c \<and> c \<le> 13))"

definition strip_spaces :: "str \<Rightarrow> str" where
  "strip_spaces s = rev (dropWhile is_py_space (rev (dropWhile is_py_space s)))"

text \<open>
  The underscore check of \<open>_Py_string_to_number_with_underscores\<close>: \<open>prev\<close> is the
  character before; the result is the text without its underscores, or \<open>None\<close>.
\<close>

fun drop_underscores :: "nat \<Rightarrow> str \<Rightarrow> str option" where
  "drop_underscores prev [] = (if prev = 95 then None else Some [])"
| "drop_underscores prev (c # cs) =
     (if c = 95 then (if is_ascii_digit prev then drop_underscores c cs else None)
      else if prev = 95 \<and> \<not> is_ascii_digit c then None
      else map_option ((#) c) (drop_underscores c cs))"

definition digits_value :: "str \<Rightarrow> nat" where
  "digits_value ds = foldl (\<lambda>a c. 10 * a + (c - 48)) 0 ds"

text \<open>An optional sign: whether it is a minus, and the rest.\<close>

fun split_sign :: "str \<Rightarrow> bool \<times> str" where
  "split_sign [] = (False, [])"
| "split_sign (c # cs) =
     (if c = 45 then (True, cs) else if c = 43 then (False, cs) else (False, c # cs))"

definition py_int :: "str \<Rightarrow> error + int" where
  "py_int s =
     (case split_sign (strip_spaces (map to_ascii_char s)) of (neg, t) \<Rightarrow>
        (case drop_underscores 0 t of
           None \<Rightarrow> Inl ValueError
         | Some ds \<Rightarrow>
             if ds \<noteq> [] \<and> list_all is_ascii_digit ds \<and> length ds \<le> max_str_digits
             then Inr (if neg then - int (digits_value ds) else int (digits_value ds))
             else Inl ValueError))"

section \<open>Python lists\<close>

text \<open>
  \<open>xs[i]\<close> and \<open>xs[i] = v\<close>: a negative index counts from the end, and an index outside
  \<open>[-len, len)\<close> raises \<open>IndexError\<close>.
\<close>

definition list_getitem :: "'a list \<Rightarrow> int \<Rightarrow> error + 'a" where
  "list_getitem xs i =
     (let n = int (length xs); j = (if i < 0 then i + n else i)
      in if 0 \<le> j \<and> j < n then Inr (xs ! nat j) else Inl IndexError)"

definition list_setitem :: "'a list \<Rightarrow> int \<Rightarrow> 'a \<Rightarrow> error + 'a list" where
  "list_setitem xs i v =
     (let n = int (length xs); j = (if i < 0 then i + n else i)
      in if 0 \<le> j \<and> j < n then Inr (xs[nat j := v]) else Inl IndexError)"

section \<open>Floating point: \<open>float(s)\<close>, \<open>+\<close> and \<open>-\<close>\<close>

text \<open>
  A Python \<open>float\<close> is an IEEE 754 binary64 number: an infinity, a NaN, or a rational
  \<open>m * 2 ^ e\<close> with \<open>\<bar>m\<bar> < 2 ^ 53\<close> and \<open>-1074 \<le> e \<le> 971\<close>. The model keeps the rational;
  it does not tell \<open>-0.0\<close> from \<open>0.0\<close>, which Python's \<open>==\<close> does not either.
  Every operation rounds the exact result to the nearest such number, a tie going to
  the even significand, and a result of magnitude \<open>2 ^ 1024\<close> or more is an infinity.
\<close>

datatype pyfloat = Fin rat | PosInf | NegInf | NaN

definition pow2 :: "int \<Rightarrow> rat" where
  "pow2 e = (if 0 \<le> e then 2 ^ nat e else 1 / 2 ^ nat (- e))"

definition pow10 :: "int \<Rightarrow> rat" where
  "pow10 e = (if 0 \<le> e then 10 ^ nat e else 1 / 10 ^ nat (- e))"

text \<open>\<open>ilog2 x\<close> is the integer part of the binary logarithm of a positive \<open>x\<close>.\<close>

definition ilog2 :: "rat \<Rightarrow> int" where
  "ilog2 x =
     (case quotient_of x of (p, q) \<Rightarrow>
        let k = bitlen p - bitlen q in if pow2 k \<le> x then k else k - 1)"

definition round_half_even :: "rat \<Rightarrow> int" where
  "round_half_even x =
     (let f = \<lfloor>x\<rfloor>; d = x - of_int f
      in if d < 1 / 2 then f else if 1 / 2 < d then f + 1 else if even f then f else f + 1)"

definition round_double :: "rat \<Rightarrow> pyfloat" where
  "round_double x =
     (if x = 0 then Fin 0
      else let e = max (ilog2 \<bar>x\<bar> - 52) (- 1074);
               y = of_int (round_half_even (\<bar>x\<bar> / pow2 e)) * pow2 e
           in if pow2 1024 \<le> y then (if x < 0 then NegInf else PosInf)
              else Fin (if x < 0 then - y else y))"

fun fneg :: "pyfloat \<Rightarrow> pyfloat" where
  "fneg (Fin x) = Fin (- x)"
| "fneg PosInf = NegInf"
| "fneg NegInf = PosInf"
| "fneg NaN = NaN"

fun fadd :: "pyfloat \<Rightarrow> pyfloat \<Rightarrow> pyfloat" where
  "fadd (Fin x) (Fin y) = round_double (x + y)"
| "fadd NaN _ = NaN"
| "fadd _ NaN = NaN"
| "fadd PosInf NegInf = NaN"
| "fadd NegInf PosInf = NaN"
| "fadd PosInf _ = PosInf"
| "fadd _ PosInf = PosInf"
| "fadd NegInf _ = NegInf"
| "fadd _ NegInf = NegInf"

definition fsub :: "pyfloat \<Rightarrow> pyfloat \<Rightarrow> pyfloat" where
  "fsub a b = fadd a (fneg b)"

text \<open>
  The text of a float, once trimmed and freed of underscores: an optional sign, then
  \<open>inf\<close>, \<open>infinity\<close> or \<open>nan\<close> in any case, or digits with an optional point and an
  optional exponent, at least one digit before or after the point. The value of the
  decimal is rounded once.
\<close>

definition lower_ascii :: "nat \<Rightarrow> nat" where
  "lower_ascii c = (if 65 \<le> c \<and> c \<le> 90 then c + 32 else c)"

definition parse_inf_or_nan :: "str \<Rightarrow> pyfloat option" where
  "parse_inf_or_nan t =
     (case split_sign t of (neg, r) \<Rightarrow>
        let w = map lower_ascii r
        in if w = pystr ''inf'' \<or> w = pystr ''infinity''
           then Some (if neg then NegInf else PosInf)
           else if w = pystr ''nan'' then Some NaN else None)"

definition parse_exponent :: "str \<Rightarrow> int option" where
  "parse_exponent r =
     (case r of
        [] \<Rightarrow> Some 0
      | c # r' \<Rightarrow>
          if c = 101 \<or> c = 69
          then (case split_sign r' of (neg, ds) \<Rightarrow>
                  if ds \<noteq> [] \<and> list_all is_ascii_digit ds
                  then Some (if neg then - int (digits_value ds) else int (digits_value ds))
                  else None)
          else None)"

definition parse_decimal :: "str \<Rightarrow> rat option" where
  "parse_decimal t =
     (case split_sign t of (neg, r) \<Rightarrow>
        let ip = takeWhile is_ascii_digit r;
            r1 = dropWhile is_ascii_digit r;
            fp = (case r1 of [] \<Rightarrow> [] | c # r' \<Rightarrow> if c = 46 then takeWhile is_ascii_digit r' else []);
            r2 = (case r1 of [] \<Rightarrow> [] | c # r' \<Rightarrow> if c = 46 then dropWhile is_ascii_digit r' else r1)
        in if ip = [] \<and> fp = [] then None
           else (case parse_exponent r2 of
                   None \<Rightarrow> None
                 | Some ex \<Rightarrow>
                     Some ((if neg then - 1 else 1) * of_nat (digits_value (ip @ fp))
                           * pow10 (ex - int (length fp)))))"

definition py_float :: "str \<Rightarrow> error + pyfloat" where
  "py_float s =
     (case drop_underscores 0 (strip_spaces (map to_ascii_char s)) of
        None \<Rightarrow> Inl ValueError
      | Some w \<Rightarrow>
          (case parse_inf_or_nan w of
             Some f \<Rightarrow> Inr f
           | None \<Rightarrow>
               (case parse_decimal w of
                  None \<Rightarrow> Inl ValueError
                | Some x \<Rightarrow> Inr (round_double x))))"

section \<open>The console\<close>


section \<open>Files: UTF-8\<close>

text \<open>
  A file is a sequence of bytes. The program opens its file with \<open>encoding="utf-8"\<close>
  and \<open>newline=""\<close>: text is encoded and decoded strictly, and no line ending is
  translated. A code point can be encoded when it is a Unicode scalar value, that is,
  not a surrogate (\<open>D800\<close> to \<open>DFFF\<close>, which a Python \<open>str\<close> may hold) and below
  \<open>110000\<close>; writing any other raises \<open>UnicodeEncodeError\<close>. Reading bytes that are
  not the encoding of a text raises \<open>UnicodeDecodeError\<close>.
\<close>

type_synonym bytes = "nat list"

definition encodable :: "nat \<Rightarrow> bool" where
  "encodable c = (c < 55296 \<or> (57344 \<le> c \<and> c < 1114112))"

definition utf8_char :: "nat \<Rightarrow> bytes" where
  "utf8_char c =
     (if c < 128 then [c]
      else if c < 2048 then [192 + c div 64, 128 + c mod 64]
      else if c < 65536 then [224 + c div 4096, 128 + c div 64 mod 64, 128 + c mod 64]
      else [240 + c div 262144, 128 + c div 4096 mod 64, 128 + c div 64 mod 64, 128 + c mod 64])"

definition utf8_bytes :: "str \<Rightarrow> bytes" where
  "utf8_bytes s = concat (map utf8_char s)"

definition utf8_encode :: "str \<Rightarrow> error + bytes" where
  "utf8_encode s = (if list_all encodable s then Inr (utf8_bytes s) else Inl UnicodeEncodeError)"

text \<open>
  The decoder: \<open>continuation b\<close> is a byte \<open>10xxxxxx\<close>; \<open>second_ok lead b\<close> is the range
  of the byte after the lead byte of a sequence of three or four bytes, which excludes
  the overlong forms, the surrogates and the code points from \<open>110000\<close> on.
\<close>

definition continuation :: "nat \<Rightarrow> bool" where
  "continuation b = (128 \<le> b \<and> b \<le> 191)"

definition second_ok :: "nat \<Rightarrow> nat \<Rightarrow> bool" where
  "second_ok lead b =
     (if lead = 224 then 160 \<le> b \<and> b \<le> 191
      else if lead = 237 then 128 \<le> b \<and> b \<le> 159
      else if lead = 240 then 144 \<le> b \<and> b \<le> 191
      else if lead = 244 then 128 \<le> b \<and> b \<le> 143
      else continuation b)"

definition decoded :: "nat \<Rightarrow> error + str \<Rightarrow> error + str" where
  "decoded c rest = (case rest of Inl e \<Rightarrow> Inl e | Inr s \<Rightarrow> Inr (c # s))"

fun utf8_decode :: "bytes \<Rightarrow> error + str" where
  "utf8_decode [] = Inr []"
| "utf8_decode (b # bs) =
     (if b < 128 then decoded b (utf8_decode bs)
      else if 194 \<le> b \<and> b \<le> 223 then
        (case bs of
           b1 # r \<Rightarrow>
             if continuation b1
             then decoded ((b - 192) * 64 + (b1 - 128)) (utf8_decode r)
             else Inl UnicodeDecodeError
         | _ \<Rightarrow> Inl UnicodeDecodeError)
      else if 224 \<le> b \<and> b \<le> 239 then
        (case bs of
           b1 # b2 # r \<Rightarrow>
             if second_ok b b1 \<and> continuation b2
             then decoded ((b - 224) * 4096 + (b1 - 128) * 64 + (b2 - 128)) (utf8_decode r)
             else Inl UnicodeDecodeError
         | _ \<Rightarrow> Inl UnicodeDecodeError)
      else if 240 \<le> b \<and> b \<le> 244 then
        (case bs of
           b1 # b2 # b3 # r \<Rightarrow>
             if second_ok b b1 \<and> continuation b2 \<and> continuation b3
             then decoded ((b - 240) * 262144 + (b1 - 128) * 4096 + (b2 - 128) * 64 + (b3 - 128))
                    (utf8_decode r)
             else Inl UnicodeDecodeError
         | _ \<Rightarrow> Inl UnicodeDecodeError)
      else Inl UnicodeDecodeError)"

section \<open>The csv format\<close>

text \<open>
  Rows are written by \<open>csv.writer\<close> and read by \<open>csv.reader\<close> in the default dialect:
  delimiter \<open>,\<close> (44), quote character \<open>"\<close> (34), line terminator \<open>\r\n\<close> (13, 10),
  minimal quoting with doubled quotes, no escape character, not strict.
\<close>

subsection \<open>Writing a row\<close>

text \<open>
  A field is put in quotes when it holds the delimiter, the quote character or a
  character of the line terminator; a quote character in it is doubled. A row of one
  empty field is written as \<open>""\<close>. The line ends with \<open>\r\n\<close>.
\<close>

type_synonym row = "str list"

definition needs_quotes :: "str \<Rightarrow> bool" where
  "needs_quotes f = list_ex (\<lambda>c. c = 44 \<or> c = 34 \<or> c = 13 \<or> c = 10) f"

definition double_quotes :: "str \<Rightarrow> str" where
  "double_quotes f = concat (map (\<lambda>c. if c = 34 then [34, 34] else [c]) f)"

definition join_field :: "str \<Rightarrow> str" where
  "join_field f = (if needs_quotes f then 34 # double_quotes f @ [34] else f)"

fun join_fields :: "row \<Rightarrow> str" where
  "join_fields [] = []"
| "join_fields [f] = join_field f"
| "join_fields (f # g # fs) = join_field f @ 44 # join_fields (g # fs)"

definition csv_line :: "row \<Rightarrow> str" where
  "csv_line fs = (if fs = [[]] then [34, 34] else join_fields fs) @ [13, 10]"

text \<open>
  \<open>writerow\<close> converts the fields, which may raise \<open>ValueError\<close>, and hands the line to
  the file, where encoding it may raise \<open>UnicodeEncodeError\<close>; the result is the bytes
  that the call adds to the file. \<open>writerows\<close> writes row after row after the bytes
  already written: when a row raises, the rows before it are in the file and the
  others are not.
\<close>

fun field_texts :: "pyval list \<Rightarrow> error + row" where
  "field_texts [] = Inr []"
| "field_texts (v # vs) =
     (case py_str v of
        Inl e \<Rightarrow> Inl e
      | Inr t \<Rightarrow> (case field_texts vs of Inl e \<Rightarrow> Inl e | Inr ts \<Rightarrow> Inr (t # ts)))"

definition writerow :: "pyval list \<Rightarrow> error + bytes" where
  "writerow fs = (case field_texts fs of Inl e \<Rightarrow> Inl e | Inr ts \<Rightarrow> utf8_encode (csv_line ts))"

fun writerows :: "pyval list list \<Rightarrow> bytes \<Rightarrow> (error + unit) \<times> bytes" where
  "writerows [] written = (Inr (), written)"
| "writerows (r # rs) written =
     (case writerow r of
        Inl e \<Rightarrow> (Inl e, written)
      | Inr bs \<Rightarrow> writerows rs (written @ bs))"

subsection \<open>Reading rows\<close>

text \<open>
  Iterating over a file opened with \<open>newline=""\<close> gives its lines, each with its line
  ending, which is \<open>\n\<close>, \<open>\r\n\<close> or a \<open>\r\<close> that no \<open>\n\<close> follows; the last line may
  have none. \<open>split_lines cur text\<close> are the lines of \<open>text\<close> when \<open>cur\<close> is what has
  been read of the current line.
\<close>

fun split_lines :: "str \<Rightarrow> str \<Rightarrow> str list" where
  "split_lines cur [] = (if cur = [] then [] else [cur])"
| "split_lines cur (c # cs) =
     (if c = 10 then (cur @ [10]) # split_lines [] cs
      else if c = 13 then
        (case cs of
           [] \<Rightarrow> [cur @ [13]]
         | d # ds \<Rightarrow>
             if d = 10 then (cur @ [13, 10]) # split_lines [] ds
             else (cur @ [13]) # split_lines [] cs)
      else split_lines (cur @ [c]) cs)"

definition file_lines :: "str \<Rightarrow> str list" where
  "file_lines text = split_lines [] text"

text \<open>
  The reader is the state machine of \<open>_csv.c\<close>: its state, the fields of the record
  read so far and the characters of the current field. \<open>parse_add_char\<close> refuses a
  field of more than \<open>field_size_limit()\<close> characters, 131072 by default.
  \<open>parse_process_char\<close> takes a character of the line, or \<open>None\<close> at the end of the
  line.
\<close>

datatype parser_state =
  START_RECORD | START_FIELD | IN_FIELD | IN_QUOTED_FIELD | QUOTE_IN_QUOTED_FIELD | EAT_CRNL

record reader =
  rstate :: parser_state
  rfields :: row
  rfield :: str

definition field_limit :: nat where
  "field_limit = 131072"

definition parse_reset :: reader where
  "parse_reset = \<lparr>rstate = START_RECORD, rfields = [], rfield = []\<rparr>"

definition parse_add_char :: "parser_state \<Rightarrow> reader \<Rightarrow> nat \<Rightarrow> error + reader" where
  "parse_add_char st p c =
     (if field_limit \<le> length (rfield p) then Inl CsvError
      else Inr (p\<lparr>rstate := st, rfield := rfield p @ [c]\<rparr>))"

definition parse_save_field :: "parser_state \<Rightarrow> reader \<Rightarrow> reader" where
  "parse_save_field st p = p\<lparr>rstate := st, rfields := rfields p @ [rfield p], rfield := []\<rparr>"

definition start_field :: "reader \<Rightarrow> nat option \<Rightarrow> error + reader" where
  "start_field p ch =
     (case ch of
        None \<Rightarrow> Inr (parse_save_field START_RECORD p)
      | Some c \<Rightarrow>
          if c = 10 \<or> c = 13 then Inr (parse_save_field EAT_CRNL p)
          else if c = 34 then Inr (p\<lparr>rstate := IN_QUOTED_FIELD\<rparr>)
          else if c = 44 then Inr (parse_save_field START_FIELD p)
          else parse_add_char IN_FIELD p c)"

definition parse_process_char :: "reader \<Rightarrow> nat option \<Rightarrow> error + reader" where
  "parse_process_char p ch =
     (case rstate p of
        START_RECORD \<Rightarrow>
          (case ch of
             None \<Rightarrow> Inr p
           | Some c \<Rightarrow>
               if c = 10 \<or> c = 13 then Inr (p\<lparr>rstate := EAT_CRNL\<rparr>)
               else start_field p ch)
      | START_FIELD \<Rightarrow> start_field p ch
      | IN_FIELD \<Rightarrow>
          (case ch of
             None \<Rightarrow> Inr (parse_save_field START_RECORD p)
           | Some c \<Rightarrow>
               if c = 10 \<or> c = 13 then Inr (parse_save_field EAT_CRNL p)
               else if c = 44 then Inr (parse_save_field START_FIELD p)
               else parse_add_char IN_FIELD p c)
      | IN_QUOTED_FIELD \<Rightarrow>
          (case ch of
             None \<Rightarrow> Inr p
           | Some c \<Rightarrow>
               if c = 34 then Inr (p\<lparr>rstate := QUOTE_IN_QUOTED_FIELD\<rparr>)
               else parse_add_char IN_QUOTED_FIELD p c)
      | QUOTE_IN_QUOTED_FIELD \<Rightarrow>
          (case ch of
             None \<Rightarrow> Inr (parse_save_field START_RECORD p)
           | Some c \<Rightarrow>
               if c = 34 then parse_add_char IN_QUOTED_FIELD p c
               else if c = 44 then Inr (parse_save_field START_FIELD p)
               else if c = 10 \<or> c = 13 then Inr (parse_save_field EAT_CRNL p)
               else parse_add_char IN_FIELD p c)
      | EAT_CRNL \<Rightarrow>
          (case ch of
             None \<Rightarrow> Inr (p\<lparr>rstate := START_RECORD\<rparr>)
           | Some c \<Rightarrow> if c = 10 \<or> c = 13 then Inr p else Inl CsvError))"

text \<open>
  \<open>feed\<close> gives the characters of a line to the reader. \<open>end_line\<close> gives it the end
  of the line: when that leaves the reader at the start of a record, the record is
  complete, it is returned and the reader starts afresh; otherwise (inside a quoted
  field) the record goes on with the next line. \<open>and_then rows result\<close> puts the rows
  already read before those of \<open>result\<close>.
\<close>

fun feed :: "reader \<Rightarrow> str \<Rightarrow> error + reader" where
  "feed p [] = Inr p"
| "feed p (c # cs) =
     (case parse_process_char p (Some c) of Inl e \<Rightarrow> Inl e | Inr q \<Rightarrow> feed q cs)"

definition end_line :: "reader \<Rightarrow> error + (row list \<times> reader)" where
  "end_line p =
     (case parse_process_char p None of
        Inl e \<Rightarrow> Inl e
      | Inr q \<Rightarrow> if rstate q = START_RECORD then Inr ([rfields q], parse_reset) else Inr ([], q))"

definition and_then ::
  "row list \<Rightarrow> error + (row list \<times> reader) \<Rightarrow> error + (row list \<times> reader)" where
  "and_then rows result =
     (case result of Inl e \<Rightarrow> Inl e | Inr (later, p) \<Rightarrow> Inr (rows @ later, p))"

fun read_all :: "reader \<Rightarrow> str list \<Rightarrow> error + (row list \<times> reader)" where
  "read_all p [] = Inr ([], p)"
| "read_all p (l # ls) =
     (case feed p l of
        Inl e \<Rightarrow> Inl e
      | Inr q \<Rightarrow>
          (case end_line q of
             Inl e \<Rightarrow> Inl e
           | Inr (rows, q') \<Rightarrow> and_then rows (read_all q' ls)))"

text \<open>
  \<open>csv_reader text\<close> is the list of all the rows that iterating over the reader gives.
  When the lines end inside a record, the reader not being strict, what has been read
  of it is the last row.
\<close>

definition csv_reader :: "str \<Rightarrow> error + row list" where
  "csv_reader text =
     (case read_all parse_reset (file_lines text) of
        Inl e \<Rightarrow> Inl e
      | Inr (rows, p) \<Rightarrow>
          Inr (rows @ (if rfield p \<noteq> [] \<or> rstate p = IN_QUOTED_FIELD
                       then [rfields p @ [rfield p]] else [])))"

text \<open>
  The same reading, one character at a time: \<open>run p pending text\<close> reads \<open>text\<close> from
  the state \<open>p\<close>, \<open>pending\<close> saying that a line has been begun. It is shown below to
  be \<open>read_all\<close> on the lines of the text, and serves the proofs.
\<close>

fun run :: "reader \<Rightarrow> bool \<Rightarrow> str \<Rightarrow> error + (row list \<times> reader)" where
  "run p pending [] =
     (if pending then end_line p else Inr ([], p))"
| "run p pending (c # cs) =
     (case parse_process_char p (Some c) of
        Inl e \<Rightarrow> Inl e
      | Inr q \<Rightarrow>
          if c = 10 then
            (case end_line q of Inl e \<Rightarrow> Inl e | Inr (rows, q') \<Rightarrow> and_then rows (run q' False cs))
          else if c = 13 then
            (case cs of
               [] \<Rightarrow> end_line q
             | d # ds \<Rightarrow>
                 if d = 10 then
                   (case parse_process_char q (Some 10) of
                      Inl e \<Rightarrow> Inl e
                    | Inr q1 \<Rightarrow>
                        (case end_line q1 of
                           Inl e \<Rightarrow> Inl e
                         | Inr (rows, q') \<Rightarrow> and_then rows (run q' False ds)))
                 else
                   (case end_line q of
                      Inl e \<Rightarrow> Inl e
                    | Inr (rows, q') \<Rightarrow> and_then rows (run q' False cs)))
          else run q True cs)"

section \<open>\<open>Transaction\<close> and \<open>AccountManager\<close>\<close>

text \<open>
  A transaction has three texts and an amount. The amount is an \<open>int\<close>: that is what
  \<open>check_amount_input\<close> returns and what \<open>main.py\<close> and \<open>test.py\<close> construct every
  transaction with (the annotation \<open>float\<close> is not checked by Python; an amount that
  is a \<open>float\<close> is not modelled).
\<close>

record Transaction =
  date :: str
  category :: str
  amount :: int
  description :: str

record AccountManager =
  filename :: str

text \<open>
  The two category labels of \<open>main.py\<close>, as code points: the Russian words for income
  (\<open>Dokhod\<close> in Latin letters) and for expense (\<open>Raskhod\<close>).
\<close>

definition income_label :: str where
  "income_label = [1044, 1086, 1093, 1086, 1076]"

definition expense_label :: str where
  "expense_label = [1056, 1072, 1089, 1093, 1086, 1076]"

text \<open>
  The files are a map from names to contents; a name without a file has no entry. The
  file system is taken to accept every write. Opening the file for reading raises
  \<open>FileNotFoundError\<close> when it does not exist; the text is decoded and then read by
  the csv reader. (CPython decodes the file in blocks while the reader asks for lines,
  so for a file that is neither UTF-8 nor csv the exception that surfaces depends on
  where the two defects are; the model reports the decoding error.)
\<close>

type_synonym files = "str \<rightharpoonup> bytes"

definition load_transactions :: "AccountManager \<Rightarrow> files \<Rightarrow> error + row list" where
  "load_transactions self fs =
     (case fs (filename self) of
        None \<Rightarrow> Inl FileNotFoundError
      | Some content \<Rightarrow>
          (case utf8_decode content of
             Inl e \<Rightarrow> Inl e
           | Inr text \<Rightarrow> csv_reader text))"

text \<open>
  \<open>save_transactions\<close> opens the file with \<open>"w"\<close>, which empties it, and writes the
  rows; \<open>add_transaction\<close> opens it with \<open>"a"\<close>, which creates it when it does not
  exist, and writes one row after the bytes that are there. Both return the outcome
  and the files after the call: when a row cannot be written, what was written before
  it stays.
\<close>

definition save_transactions ::
  "AccountManager \<Rightarrow> pyval list list \<Rightarrow> files \<Rightarrow> (error + unit) \<times> files" where
  "save_transactions self transactions fs =
     (case writerows transactions [] of
        (outcome, written) \<Rightarrow> (outcome, fs(filename self \<mapsto> written)))"

definition add_transaction ::
  "AccountManager \<Rightarrow> Transaction \<Rightarrow> files \<Rightarrow> (error + unit) \<times> files" where
  "add_transaction self transaction fs =
     (let content = (case fs (filename self) of None \<Rightarrow> [] | Some bs \<Rightarrow> bs)
      in case writerow [PStr (date transaction), PStr (category transaction),
                        PInt (amount transaction), PStr (description transaction)] of
           Inl e \<Rightarrow> (Inl e, fs(filename self \<mapsto> content))
         | Inr bs \<Rightarrow> (Inr (), fs(filename self \<mapsto> content @ bs)))"

text \<open>
  \<open>edit_transaction\<close> loads the rows (lists of \<open>str\<close>), assigns the new data at index
  \<open>transaction_index - 1\<close> and saves the list. Nothing is caught: an exception of
  \<open>load_transactions\<close> or of the assignment leaves the operation before
  \<open>save_transactions\<close> is reached.
\<close>

definition edit_transaction ::
  "AccountManager \<Rightarrow> int \<Rightarrow> pyval list \<Rightarrow> files \<Rightarrow> (error + unit) \<times> files" where
  "edit_transaction self transaction_index new_transaction_data fs =
     (case load_transactions self fs of
        Inl e \<Rightarrow> (Inl e, fs)
      | Inr transactions \<Rightarrow>
          (case list_setitem (map (map PStr) transactions) (transaction_index - 1)
                  new_transaction_data of
             Inl e \<Rightarrow> (Inl e, fs)
           | Inr transactions' \<Rightarrow> save_transactions self transactions' fs))"

text \<open>
  \<open>search_transactions\<close>: the criteria are a \<open>dict\<close>, read in insertion order by
  \<open>criteria.items()\<close>, so they are a list of pairs. \<open>differs key name i transaction value\<close>
  is one condition \<^verbatim>\<open>key == name and transaction[i] != value\<close>: the field is read only
  when the key is \<open>name\<close>. A field is a \<open>str\<close>; it differs from every value that is not
  the same \<open>str\<close>. \<open>criteria_match\<close> is the inner loop, \<open>True\<close> when no condition
  broke out of it.
\<close>

definition differs :: "str \<Rightarrow> str \<Rightarrow> int \<Rightarrow> row \<Rightarrow> pyval \<Rightarrow> error + bool" where
  "differs key name i transaction v =
     (if key = name
      then (case list_getitem transaction i of
              Inl e \<Rightarrow> Inl e
            | Inr field \<Rightarrow> Inr (PStr field \<noteq> v))
      else Inr False)"

fun criteria_match :: "(str \<times> pyval) list \<Rightarrow> row \<Rightarrow> error + bool" where
  "criteria_match [] transaction = Inr True"
| "criteria_match ((key, v) # rest) transaction =
     (case differs key (pystr ''date'') 0 transaction v of
        Inl e \<Rightarrow> Inl e
      | Inr True \<Rightarrow> Inr False
      | Inr False \<Rightarrow>
     (case differs key (pystr ''category'') 1 transaction v of
        Inl e \<Rightarrow> Inl e
      | Inr True \<Rightarrow> Inr False
      | Inr False \<Rightarrow>
     (case differs key (pystr ''amount'') 2 transaction v of
        Inl e \<Rightarrow> Inl e
      | Inr True \<Rightarrow> Inr False
      | Inr False \<Rightarrow> criteria_match rest transaction)))"

fun search_loop :: "(str \<times> pyval) list \<Rightarrow> row list \<Rightarrow> row list \<Rightarrow> error + row list" where
  "search_loop criteria result [] = Inr result"
| "search_loop criteria result (transaction # transactions) =
     (case criteria_match criteria transaction of
        Inl e \<Rightarrow> Inl e
      | Inr m \<Rightarrow>
          search_loop criteria (if m then result @ [transaction] else result) transactions)"

definition search_transactions ::
  "AccountManager \<Rightarrow> (str \<times> pyval) list \<Rightarrow> files \<Rightarrow> error + row list" where
  "search_transactions self criteria fs =
     (case load_transactions self fs of
        Inl e \<Rightarrow> Inl e
      | Inr transactions \<Rightarrow> search_loop criteria [] transactions)"

text \<open>
  \<open>show_balance\<close>: the loop converts the amount of every row before it looks at the
  category. \<open>balance\<close> starts as the integer \<open>0\<close>, which the first addition turns into
  a float of the same value.
\<close>

fun balance_loop :: "pyfloat \<Rightarrow> row list \<Rightarrow> error + pyfloat" where
  "balance_loop balance [] = Inr balance"
| "balance_loop balance (transaction # transactions) =
     (case list_getitem transaction 2 of
        Inl e \<Rightarrow> Inl e
      | Inr a \<Rightarrow>
     (case py_float a of
        Inl e \<Rightarrow> Inl e
      | Inr amount' \<Rightarrow>
     (case list_getitem transaction 1 of
        Inl e \<Rightarrow> Inl e
      | Inr c \<Rightarrow>
          if c = income_label then balance_loop (fadd balance amount') transactions
          else if c = expense_label then balance_loop (fsub balance amount') transactions
          else balance_loop balance transactions)))"

definition show_balance :: "AccountManager \<Rightarrow> files \<Rightarrow> error + pyfloat" where
  "show_balance self fs =
     (case load_transactions self fs of
        Inl e \<Rightarrow> Inl e
      | Inr transactions \<Rightarrow> balance_loop (Fin 0) transactions)"

text \<open>
  \<open>show_expenses\<close> and \<open>show_profit\<close> are the same loop for one label: the category is
  tested first, and only the amount of a row of that category is converted.
\<close>

fun total_loop :: "str \<Rightarrow> pyfloat \<Rightarrow> row list \<Rightarrow> row list \<Rightarrow> error + (row list \<times> pyfloat)" where
  "total_loop label tot found [] = Inr (found, tot)"
| "total_loop label tot found (transaction # transactions) =
     (case list_getitem transaction 1 of
        Inl e \<Rightarrow> Inl e
      | Inr c \<Rightarrow>
          if c = label
          then (case list_getitem transaction 2 of
                  Inl e \<Rightarrow> Inl e
                | Inr a \<Rightarrow>
                    (case py_float a of
                       Inl e \<Rightarrow> Inl e
                     | Inr amount' \<Rightarrow>
                         total_loop label (fadd tot amount') (found @ [transaction]) transactions))
          else total_loop label tot found transactions)"

definition show_expenses :: "AccountManager \<Rightarrow> files \<Rightarrow> error + (row list \<times> pyfloat)" where
  "show_expenses self fs =
     (case load_transactions self fs of
        Inl e \<Rightarrow> Inl e
      | Inr transactions \<Rightarrow> total_loop expense_label (Fin 0) [] transactions)"

definition show_profit :: "AccountManager \<Rightarrow> files \<Rightarrow> error + (row list \<times> pyfloat)" where
  "show_profit self fs =
     (case load_transactions self fs of
        Inl e \<Rightarrow> Inl e
      | Inr transactions \<Rightarrow> total_loop income_label (Fin 0) [] transactions)"

definition check_transaction_number_input :: "AccountManager \<Rightarrow> str \<Rightarrow> int \<Rightarrow> bool" where
  "check_transaction_number_input self transaction_number len_transactions =
     (case py_int transaction_number of
        Inl e \<Rightarrow> False
      | Inr number \<Rightarrow> 1 \<le> number \<and> number \<le> len_transactions)"

text \<open>
  The two prompt loops read lines from the console until one matches; \<open>input()\<close>
  raises \<open>EOFError\<close> when there is no line left. The lines that the calls of
  \<open>input()\<close> still to come return are the argument, and the result is the accepted
  value with the lines that remain.
\<close>

fun check_date_input :: "AccountManager \<Rightarrow> str list \<Rightarrow> error + (str \<times> str list)" where
  "check_date_input self [] = Inl EOFError"
| "check_date_input self (date_input # lines) =
     (if pattern_match DATE_PATTERN date_input \<noteq> None then Inr (date_input, lines)
      else check_date_input self lines)"


section \<open>Quantities and examples that the properties speak of\<close>

text \<open>
  Stated from the specification: the amount of a row, read as the natural number that
  its digits denote, counts for the category of the row; \<open>category_sum label rows\<close> is
  the exact sum of the amounts of the rows of one category. \<open>digit_amount\<close> says that a
  row has an amount field and that it is a non-empty string of the digits 0 to 9.
\<close>

fun row_amount :: "str \<Rightarrow> row \<Rightarrow> int" where
  "row_amount label (d # c # a # rest) = (if c = label then int (digits_value a) else 0)"
| "row_amount label _ = 0"

definition category_sum :: "str \<Rightarrow> row list \<Rightarrow> int" where
  "category_sum label rows = sum_list (map (row_amount label) rows)"

fun digit_amount :: "row \<Rightarrow> bool" where
  "digit_amount (d # c # a # rest) = (a \<noteq> [] \<and> list_all is_ascii_digit a)"
| "digit_amount _ = False"

text \<open>
  The rows of the scenario of the specification, a third income row, a row of another
  category whose amount is not a number, and four rows whose amounts reach \<open>2 ^ 53\<close>.
\<close>

definition ledger :: AccountManager where
  "ledger = \<lparr>filename = pystr ''transactions.csv''\<rparr>"

text \<open>
  \<open>csv_text rows\<close> is the text of a file that holds the lines of \<open>rows\<close>, and
  \<open>store_of rows\<close> are the files in which the file of \<open>ledger\<close> holds that text.
\<close>

definition csv_text :: "row list \<Rightarrow> str" where
  "csv_text rows = concat (map csv_line rows)"

definition store_of :: "row list \<Rightarrow> files" where
  "store_of rows = Map.empty(filename ledger \<mapsto> utf8_bytes (csv_text rows))"

definition salary_row :: row where
  "salary_row = [pystr ''2024-05-01'', income_label, pystr ''1000'', pystr ''salary'']"

definition food_row :: row where
  "food_row = [pystr ''2024-05-02'', expense_label, pystr ''500'', pystr ''food'']"

definition bonus_row :: row where
  "bonus_row = [pystr ''2024-05-04'', income_label, pystr ''250'', pystr ''bonus'']"

definition rent_data :: "pyval list" where
  "rent_data = [PStr (pystr ''2024-05-03''), PStr expense_label, PInt 700, PStr (pystr ''rent'')]"

definition rent_row :: row where
  "rent_row = [pystr ''2024-05-03'', expense_label, pystr ''700'', pystr ''rent'']"

definition transfer_row :: row where
  "transfer_row = [pystr ''2024-05-05'', pystr ''Transfer'', pystr ''abc'', pystr ''to savings'']"

definition large_rows :: "row list" where
  "large_rows =
     [[pystr ''2024-05-01'', expense_label, pystr ''1'', pystr ''fee''],
      [pystr ''2024-05-02'', income_label, pystr ''9007199254740992'', pystr ''sale''],
      [pystr ''2024-05-03'', income_label, pystr ''1'', pystr ''coin''],
      [pystr ''2024-05-04'', income_label, pystr ''1'', pystr ''coin'']]"

text \<open>
  A store whose only line, the salary row, has no line ending; the transaction of the
  rent row; a text with a lone surrogate; a text of one character more than the reader
  accepts in a field; and the data of the rent row with the surrogate text, with the
  long text, and with an amount of 4301 digits.
\<close>

definition unterminated_store :: files where
  "unterminated_store = Map.empty(filename ledger \<mapsto> utf8_bytes (join_fields salary_row))"

definition rent_transaction :: Transaction where
  "rent_transaction =
     \<lparr>date = pystr ''2024-05-03'', category = expense_label, amount = 700,
      description = pystr ''rent''\<rparr>"

definition surrogate_text :: str where
  "surrogate_text = [55296]"

definition long_text :: str where
  "long_text = replicate (Suc field_limit) 97"

definition surrogate_data :: "pyval list" where
  "surrogate_data =
     [PStr (pystr ''2024-05-03''), PStr expense_label, PInt 700, PStr surrogate_text]"

definition long_data :: "pyval list" where
  "long_data = [PStr (pystr ''2024-05-03''), PStr expense_label, PInt 700, PStr long_text]"

definition huge_data :: "pyval list" where
  "huge_data =
     [PStr (pystr ''2024-05-03''), PStr expense_label, PInt (10 ^ max_str_digits),
      PStr (pystr ''rent'')]"

text \<open>
  Stated from the specification: a store "ends a record" when its text is empty or
  ends with a line ending at which the reader is at the start of a record, as after
  every row that the program has written. \<open>writable\<close> says of a text that it can be
  encoded and is not longer than a field may be.
\<close>

definition ends_record :: "str \<Rightarrow> bool" where
  "ends_record text =
     (text = [] \<or>
      ((last text = 10 \<or> last text = 13) \<and>
       (case read_all parse_reset (file_lines text) of
          Inl e \<Rightarrow> False
        | Inr (rows, p) \<Rightarrow> rstate p = START_RECORD)))"

definition store_ends_record :: "AccountManager \<Rightarrow> files \<Rightarrow> bool" where
  "store_ends_record self fs =
     (case fs (filename self) of
        None \<Rightarrow> False
      | Some content \<Rightarrow>
          (case utf8_decode content of Inl e \<Rightarrow> False | Inr text \<Rightarrow> ends_record text))"

definition writable :: "str \<Rightarrow> bool" where
  "writable s = (list_all encodable s \<and> length s \<le> field_limit)"

text \<open>
  A value can be stored when the writer can convert it and the reader accepts the
  text: a writable \<open>str\<close>, or an \<open>int\<close> of at most 4300 digits.
\<close>

fun storable :: "pyval \<Rightarrow> bool" where
  "storable (PStr s) = writable s"
| "storable (PInt i) = (\<bar>i\<bar> < 10 ^ max_str_digits)"

text \<open>
  \<open>fields_within A r\<close>: every field of the row \<open>r\<close> has its characters in \<open>A\<close> and is
  not longer than a field may be.
\<close>

definition fields_within :: "nat set \<Rightarrow> row \<Rightarrow> bool" where
  "fields_within A r = (\<forall>f\<in>set r. length f \<le> field_limit \<and> set f \<subseteq> A)"

section \<open>The two validation patterns\<close>

lemma ms_Times_numeral [simp]:
  "ms (Times (numeral k) r) s = concat (map (ms (Times (pred_numeral k) r)) (ms r s))"
  by (simp add: numeral_eq_Suc)

lemma is_ascii_digit_decimal: "is_ascii_digit c \<Longrightarrow> is_decimal c"
  by (simp add: is_ascii_digit_def is_decimal_def decimal_zeros_def)

lemmas regex_eval = pattern_match_def DATE_PATTERN_def AMOUNT_PATTERN_def pystr_def
  is_decimal_def decimal_zeros_def

text \<open>
  C8. The date check accepts \<open>"2024-01-01"\<close> and \<open>"2024-12-31"\<close> (the match ends after the
  ten characters) and rejects \<open>"2024-13-01"\<close>, \<open>"2024-00-15"\<close> and \<open>"24-05-04"\<close>.
\<close>

theorem date_pattern_boundary_strings:
  "pattern_match DATE_PATTERN (pystr ''2024-01-01'') = Some 10 \<and>
   pattern_match DATE_PATTERN (pystr ''2024-12-31'') = Some 10 \<and>
   pattern_match DATE_PATTERN (pystr ''2024-13-01'') = None \<and>
   pattern_match DATE_PATTERN (pystr ''2024-00-15'') = None \<and>
   pattern_match DATE_PATTERN (pystr ''24-05-04'') = None"
  by (simp add: regex_eval)

subsection \<open>A date followed by anything\<close>

lemma month_cases:
  assumes "is_ascii_digit m1" "is_ascii_digit m2" "1 \<le> 10 * (m1 - 48) + (m2 - 48)"
    "10 * (m1 - 48) + (m2 - 48) \<le> 12"
  shows "(m1 = 48 \<and> 49 \<le> m2 \<and> m2 \<le> 57) \<or> (m1 = 49 \<and> 48 \<le> m2 \<and> m2 \<le> 50)"
  using assms unfolding is_ascii_digit_def by arith

lemma day_cases:
  assumes "is_ascii_digit d1" "is_ascii_digit d2" "1 \<le> 10 * (d1 - 48) + (d2 - 48)"
    "10 * (d1 - 48) + (d2 - 48) \<le> 31"
  shows "(d1 = 48 \<and> 49 \<le> d2 \<and> d2 \<le> 57) \<or> ((d1 = 49 \<or> d1 = 50) \<and> is_decimal d2)
     \<or> (d1 = 51 \<and> (d2 = 48 \<or> d2 = 49))"
proof -
  have "is_decimal d2" using assms(2) by (rule is_ascii_digit_decimal)
  moreover have "(d1 = 48 \<and> 49 \<le> d2 \<and> d2 \<le> 57) \<or> (d1 = 49 \<or> d1 = 50)
     \<or> (d1 = 51 \<and> (d2 = 48 \<or> d2 = 49))"
    using assms unfolding is_ascii_digit_def by arith
  ultimately show ?thesis by blast
qed

lemma ms_year:
  assumes "is_decimal y1" "is_decimal y2" "is_decimal y3" "is_decimal y4"
  shows "ms (Times 4 Digit) (p, y1 # y2 # y3 # y4 # cs) = [(Suc (Suc (Suc (Suc p))), cs)]"
  using assms by simp

lemma ms_month:
  assumes "(m1 = 48 \<and> 49 \<le> m2 \<and> m2 \<le> 57) \<or> (m1 = 49 \<and> 48 \<le> m2 \<and> m2 \<le> 50)"
  shows "ms (Alt (Seq (Chr 48) (Cls [(49, 57)])) (Seq (Chr 49) (Cls [(48, 50)]))) (p, m1 # m2 # cs)
     = [(Suc (Suc p), cs)]"
  using assms by (elim disjE conjE) simp_all

lemma ms_day:
  assumes "(d1 = 48 \<and> 49 \<le> d2 \<and> d2 \<le> 57) \<or> ((d1 = 49 \<or> d1 = 50) \<and> is_decimal d2)
     \<or> (d1 = 51 \<and> (d2 = 48 \<or> d2 = 49))"
  shows "ms (Alt (Seq (Chr 48) (Cls [(49, 57)]))
            (Alt (Seq (Cls [(49, 49), (50, 50)]) Digit) (Seq (Chr 51) (Cls [(48, 48), (49, 49)]))))
          (p, d1 # d2 # cs) = [(Suc (Suc p), cs)]"
  using assms by (elim disjE conjE) simp_all

lemma ms_date:
  assumes "(m1 = 48 \<and> 49 \<le> m2 \<and> m2 \<le> 57) \<or> (m1 = 49 \<and> 48 \<le> m2 \<and> m2 \<le> 50)"
   and "(d1 = 48 \<and> 49 \<le> d2 \<and> d2 \<le> 57) \<or> ((d1 = 49 \<or> d1 = 50) \<and> is_decimal d2)
     \<or> (d1 = 51 \<and> (d2 = 48 \<or> d2 = 49))"
   and "is_decimal y1" "is_decimal y2" "is_decimal y3" "is_decimal y4"
  shows "ms DATE_PATTERN (0, y1 # y2 # y3 # y4 # 45 # m1 # m2 # 45 # d1 # d2 # rest) = [(10, rest)]"
  unfolding DATE_PATTERN_def
  by (simp add: ms_year [OF assms(3-6)] ms_month [OF assms(1)] ms_day [OF assms(2)]
       del: ms.simps(8) ms_Times_numeral)

text \<open>
  C10. The date pattern is matched at the start of the input and need not reach its
  end: when the first ten characters are four digits, a hyphen, a month from \<open>01\<close> to
  \<open>12\<close>, a hyphen and a day from \<open>01\<close> to \<open>31\<close>, the input is accepted whatever follows,
  the match ending after the ten characters, and \<open>check_date_input\<close> returns the whole
  input, trailing characters included.
\<close>

theorem date_pattern_accepts_trailing:
  assumes "is_decimal y1" "is_decimal y2" "is_decimal y3" "is_decimal y4"
    and "is_ascii_digit m1" "is_ascii_digit m2"
    and "1 \<le> 10 * (m1 - 48) + (m2 - 48)" "10 * (m1 - 48) + (m2 - 48) \<le> 12"
    and "is_ascii_digit d1" "is_ascii_digit d2"
    and "1 \<le> 10 * (d1 - 48) + (d2 - 48)" "10 * (d1 - 48) + (d2 - 48) \<le> 31"
  shows "pattern_match DATE_PATTERN ([y1, y2, y3, y4, 45, m1, m2, 45, d1, d2] @ rest) = Some 10
    \<and> check_date_input self (([y1, y2, y3, y4, 45, m1, m2, 45, d1, d2] @ rest) # lines)
        = Inr ([y1, y2, y3, y4, 45, m1, m2, 45, d1, d2] @ rest, lines)"
proof -
  have "ms DATE_PATTERN (0, y1 # y2 # y3 # y4 # 45 # m1 # m2 # 45 # d1 # d2 # rest) = [(10, rest)]"
    by (rule ms_date [OF month_cases [OF assms(5-8)] day_cases [OF assms(9-12)] assms(1-4)])
  then have "pattern_match DATE_PATTERN ([y1, y2, y3, y4, 45, m1, m2, 45, d1, d2] @ rest) = Some 10"
    by (simp add: pattern_match_def)
  then show ?thesis by simp
qed

theorem date_pattern_accepts_trailing_witness:
  "pattern_match DATE_PATTERN (pystr ''2024-05-04abc'') = Some 10 \<and>
   check_date_input \<lparr>filename = pystr ''transactions.csv''\<rparr> [pystr ''2024-05-0499'']
     = Inr (pystr ''2024-05-0499'', [])"
  using date_pattern_accepts_trailing [of 50 48 50 52 48 53 48 52 "pystr ''abc''"
      "\<lparr>filename = pystr ''transactions.csv''\<rparr>" "[]"]
    date_pattern_accepts_trailing [of 50 48 50 52 48 53 48 52 "pystr ''99''"
      "\<lparr>filename = pystr ''transactions.csv''\<rparr>" "[]"]
  by (simp add: pystr_def is_ascii_digit_def is_decimal_def decimal_zeros_def)

subsection \<open>What the amount pattern accepts\<close>



declare ms.simps(11) [simp del]




lemma newline_not_decimal: "\<not> is_decimal 10"
  by (simp add: is_decimal_def decimal_zeros_def)







text \<open>
  The hypothesis on the line is needed for the pattern alone: \<open>$\<close> also holds just
  before a newline that ends the string, so \<open>AMOUNT_PATTERN.match\<close> accepts \<open>"1000\n"\<close>,
  a string that \<open>input()\<close> never returns.
\<close>

lemma amount_pattern_before_newline:
  "pattern_match AMOUNT_PATTERN (pystr ''1000'' @ [10]) = Some 4 \<and>
   \<not> list_all is_decimal (pystr ''1000'' @ [10])"
  by (simp add: regex_eval ms.simps(11))

section \<open>UTF-8: decoding what was encoded\<close>

declare utf8_decode.simps [simp del]

lemma decoded_simps [simp]:
  "decoded c (Inl e) = Inl e" "decoded c (Inr s) = Inr (c # s)"
  by (simp_all add: decoded_def)

lemma utf8_decode_1:
  assumes "c < 128"
  shows "utf8_decode (c # bs) = decoded c (utf8_decode bs)"
  using assms by (simp add: utf8_decode.simps)

lemma utf8_decode_2:
  assumes "128 \<le> c" "c < 2048"
  shows "utf8_decode ((192 + c div 64) # (128 + c mod 64) # bs) = decoded c (utf8_decode bs)"
proof -
  define q r where "q = c div 64" and "r = c mod 64"
  have c: "c = q * 64 + r" and r: "r < 64" by (simp_all add: q_def r_def)
  have q: "2 \<le> q" "q \<le> 31" using assms c r by linarith+
  show ?thesis
    unfolding q_def [symmetric] r_def [symmetric]
    using q r by (simp add: utf8_decode.simps(2) [of "192 + q"] continuation_def c)
qed

lemma utf8_decode_3:
  assumes "2048 \<le> c" "c < 65536" "encodable c"
  shows "utf8_decode ((224 + c div 4096) # (128 + c div 64 mod 64) # (128 + c mod 64) # bs)
     = decoded c (utf8_decode bs)"
proof -
  define q m r where "q = c div 4096" and "m = c div 64 mod 64" and "r = c mod 64"
  have "c div 4096 = c div 64 div 64" using div_mult2_eq [of c 64 64] by simp
  then have "c div 64 = q * 64 + m" "m < 64"
    unfolding q_def m_def by simp_all
  moreover have "c = c div 64 * 64 + r" "r < 64" by (simp_all add: r_def)
  ultimately have c: "c = q * 4096 + m * 64 + r" and m: "m < 64" and r: "r < 64" by linarith+
  have q: "q \<le> 15" using assms c by linarith
  have e: "q = 0 \<longrightarrow> 32 \<le> m" "q = 13 \<longrightarrow> m < 32"
    using assms c r m by (auto simp: encodable_def)
  show ?thesis
    unfolding q_def [symmetric] r_def [symmetric] m_def [symmetric]
    using q r m e
    by (auto simp: utf8_decode.simps(2) [of "224 + q"] continuation_def second_ok_def c)
qed

lemma utf8_decode_4:
  assumes "65536 \<le> c" "c < 1114112"
  shows "utf8_decode ((240 + c div 262144) # (128 + c div 4096 mod 64) # (128 + c div 64 mod 64)
            # (128 + c mod 64) # bs) = decoded c (utf8_decode bs)"
proof -
  define q n m r where "q = c div 262144" and "n = c div 4096 mod 64"
    and "m = c div 64 mod 64" and "r = c mod 64"
  have "c div 262144 = c div 4096 div 64" using div_mult2_eq [of c 4096 64] by simp
  then have "c div 4096 = q * 64 + n" "n < 64"
    unfolding q_def n_def by simp_all
  moreover have "c div 4096 = c div 64 div 64" using div_mult2_eq [of c 64 64] by simp
  then have "c div 64 = c div 4096 * 64 + m" "m < 64"
    unfolding m_def by simp_all
  moreover have "c = c div 64 * 64 + r" "r < 64" by (simp_all add: r_def)
  ultimately have c: "c = q * 262144 + n * 4096 + m * 64 + r"
    and n: "n < 64" and m: "m < 64" and r: "r < 64" by linarith+
  have q: "q \<le> 4" using assms c by linarith
  have e: "q = 0 \<longrightarrow> 16 \<le> n" "q = 4 \<longrightarrow> n < 16"
    using assms c r m n by auto
  show ?thesis
    unfolding q_def [symmetric] r_def [symmetric] m_def [symmetric] n_def [symmetric]
    using q r m n e
    by (auto simp: utf8_decode.simps(2) [of "240 + q"] continuation_def second_ok_def c)
qed

lemma utf8_decode_char:
  assumes "encodable c"
  shows "utf8_decode (utf8_char c @ bs) = decoded c (utf8_decode bs)"
proof -
  have "c < 1114112" using assms by (auto simp: encodable_def)
  then consider "c < 128" | "128 \<le> c" "c < 2048" | "2048 \<le> c" "c < 65536"
    | "65536 \<le> c" "c < 1114112" by linarith
  then show ?thesis
  proof cases
    case 1
    then show ?thesis by (simp add: utf8_char_def utf8_decode_1)
  next
    case 2
    then show ?thesis by (simp add: utf8_char_def utf8_decode_2)
  next
    case 3
    then show ?thesis using assms by (simp add: utf8_char_def utf8_decode_3)
  next
    case 4
    then show ?thesis by (simp add: utf8_char_def utf8_decode_4)
  qed
qed

lemma utf8_decode_bytes_append:
  assumes "list_all encodable s"
  shows "utf8_decode (utf8_bytes s @ bs)
     = (case utf8_decode bs of Inl e \<Rightarrow> Inl e | Inr t \<Rightarrow> Inr (s @ t))"
  using assms
proof (induction s)
  case Nil
  show ?case by (simp add: utf8_bytes_def split: sum.splits)
next
  case (Cons c s)
  then have "utf8_decode (utf8_bytes (c # s) @ bs)
      = decoded c (utf8_decode (utf8_bytes s @ bs))"
    by (simp add: utf8_bytes_def utf8_decode_char)
  with Cons show ?case by (simp split: sum.splits)
qed

lemma utf8_decode_bytes: "list_all encodable s \<Longrightarrow> utf8_decode (utf8_bytes s) = Inr s"
  using utf8_decode_bytes_append [of s "[]"] by (simp add: utf8_decode.simps)

lemma utf8_bytes_append: "utf8_bytes (s @ t) = utf8_bytes s @ utf8_bytes t"
  by (simp add: utf8_bytes_def)

lemma decoded_Inr: "decoded c res = Inr t \<longleftrightarrow> (\<exists>s. res = Inr s \<and> t = c # s)"
  by (cases res) auto

lemma utf8_decode_encodable: "utf8_decode bs = Inr t \<Longrightarrow> list_all encodable t"
proof (induction bs arbitrary: t rule: utf8_decode.induct)
  case 1
  then show ?case by (simp add: utf8_decode.simps)
next
  case (2 b bs)
  show ?case
  proof (cases "b < 128")
    case True
    with 2 show ?thesis
      by (auto simp: utf8_decode.simps(2) [of b] decoded_Inr encodable_def)
  next
    case n1: False
    show ?thesis
    proof (cases "194 \<le> b \<and> b \<le> 223")
      case True
      with n1 2(2,5) show ?thesis
        by (auto simp: utf8_decode.simps(2) [of b] decoded_Inr encodable_def continuation_def
            split: list.splits if_splits)
    next
      case n2: False
      show ?thesis
      proof (cases "224 \<le> b \<and> b \<le> 239")
        case True
        with n1 n2 2(3,5) show ?thesis
          by (auto simp: utf8_decode.simps(2) [of b] decoded_Inr encodable_def continuation_def
              second_ok_def split: list.splits if_splits)
      next
        case n3: False
        with n1 n2 2(4,5) show ?thesis
          by (auto simp: utf8_decode.simps(2) [of b] decoded_Inr encodable_def continuation_def
              second_ok_def split: list.splits if_splits)
      qed
    qed
  qed
qed

lemma utf8_decode_append:
  "utf8_decode a = Inr t \<Longrightarrow>
   utf8_decode (a @ b) = (case utf8_decode b of Inl e \<Rightarrow> Inl e | Inr u \<Rightarrow> Inr (t @ u))"
proof (induction a arbitrary: t rule: utf8_decode.induct)
  case 1
  then show ?case by (simp add: utf8_decode.simps split: sum.splits)
next
  case (2 c cs)
  show ?case
  proof (cases "c < 128")
    case True
    with 2(1,5) show ?thesis
      by (auto simp: utf8_decode.simps(2) [of c] decoded_Inr split: sum.splits)
  next
    case n1: False
    show ?thesis
    proof (cases "194 \<le> c \<and> c \<le> 223")
      case True
      with n1 2(2,5) show ?thesis
        by (auto simp: utf8_decode.simps(2) [of c] decoded_Inr split: sum.splits list.splits if_splits)
    next
      case n2: False
      show ?thesis
      proof (cases "224 \<le> c \<and> c \<le> 239")
        case True
        with n1 n2 2(3,5) show ?thesis
          by (auto simp: utf8_decode.simps(2) [of c] decoded_Inr
              split: sum.splits list.splits if_splits)
      next
        case n3: False
        with n1 n2 2(4,5) show ?thesis
          by (auto simp: utf8_decode.simps(2) [of c] decoded_Inr
              split: sum.splits list.splits if_splits)
      qed
    qed
  qed
qed

section \<open>Reading csv text\<close>

lemma and_then_simps [simp]:
  "and_then rows (Inl e) = Inl e"
  "and_then rows (Inr (later, p)) = Inr (rows @ later, p)"
  by (simp_all add: and_then_def)

lemma and_then_Nil [simp]: "and_then [] result = result"
  by (cases result) auto

lemma and_then_and_then [simp]: "and_then a (and_then b result) = and_then (a @ b) result"
  by (cases result) auto

lemma feed_append:
  "feed p (a @ b) = (case feed p a of Inl e \<Rightarrow> Inl e | Inr q \<Rightarrow> feed q b)"
  by (induction a arbitrary: p) (simp_all split: sum.splits)

lemma end_line_and_then: "(case end_line q of Inl e \<Rightarrow> Inl e | Inr (rows, q') \<Rightarrow> Inr (rows, q')) = end_line q"
  by (simp split: sum.splits)

lemma run_10:
  "run p pending (10 # cs)
     = (case parse_process_char p (Some 10) of
          Inl e \<Rightarrow> Inl e
        | Inr q \<Rightarrow>
            (case end_line q of Inl e \<Rightarrow> Inl e | Inr (rows, q') \<Rightarrow> and_then rows (run q' False cs)))"
  by (simp split: sum.splits)

lemma run_13_end:
  "run p pending [13]
     = (case parse_process_char p (Some 13) of Inl e \<Rightarrow> Inl e | Inr q \<Rightarrow> end_line q)"
  by (simp split: sum.splits)

lemma run_13_10:
  "run p pending (13 # 10 # ds)
     = (case parse_process_char p (Some 13) of
          Inl e \<Rightarrow> Inl e
        | Inr q \<Rightarrow>
            (case parse_process_char q (Some 10) of
               Inl e \<Rightarrow> Inl e
             | Inr q1 \<Rightarrow>
                 (case end_line q1 of
                    Inl e \<Rightarrow> Inl e
                  | Inr (rows, q') \<Rightarrow> and_then rows (run q' False ds))))"
  by (simp split: sum.splits)

lemma run_13_other:
  "d \<noteq> 10 \<Longrightarrow>
   run p pending (13 # d # ds)
     = (case parse_process_char p (Some 13) of
          Inl e \<Rightarrow> Inl e
        | Inr q \<Rightarrow>
            (case end_line q of
               Inl e \<Rightarrow> Inl e
             | Inr (rows, q') \<Rightarrow> and_then rows (run q' False (d # ds))))"
  by (simp split: sum.splits)

lemma run_other:
  "c \<noteq> 10 \<Longrightarrow> c \<noteq> 13 \<Longrightarrow>
   run p pending (c # cs)
     = (case parse_process_char p (Some c) of Inl e \<Rightarrow> Inl e | Inr q \<Rightarrow> run q True cs)"
  by (simp split: sum.splits)

lemma split_lines_10: "split_lines cur (10 # cs) = (cur @ [10]) # split_lines [] cs"
  by simp

lemma split_lines_13_end: "split_lines cur [13] = [cur @ [13]]"
  by simp

lemma split_lines_13_10: "split_lines cur (13 # 10 # ds) = (cur @ [13, 10]) # split_lines [] ds"
  by simp

lemma split_lines_13_other:
  "d \<noteq> 10 \<Longrightarrow> split_lines cur (13 # d # ds) = (cur @ [13]) # split_lines [] (d # ds)"
  by simp

lemma split_lines_other:
  "c \<noteq> 10 \<Longrightarrow> c \<noteq> 13 \<Longrightarrow> split_lines cur (c # cs) = split_lines (cur @ [c]) cs"
  by simp

declare run.simps(2) [simp del] split_lines.simps(2) [simp del]

lemma read_all_split_lines:
  "read_all p (split_lines cur text)
     = (case feed p cur of Inl e \<Rightarrow> Inl e | Inr q \<Rightarrow> run q (cur \<noteq> []) text)"
proof (induction cur "text" arbitrary: p rule: split_lines.induct)
  case (1 cur)
  show ?case by (cases "cur = []") (auto split: sum.splits)
next
  case (2 cur c cs)
  show ?case
  proof (cases "c = 10")
    case True
    have IH: "read_all q (split_lines [] cs) = run q False cs" for q
      using 2(1) [OF True] by simp
    show ?thesis
      unfolding True split_lines_10 run_10 by (simp add: feed_append IH split: sum.splits)
  next
    case n10: False
    show ?thesis
    proof (cases "c = 13")
      case True
      show ?thesis
      proof (cases cs)
        case Nil
        show ?thesis
          unfolding True Nil split_lines_13_end run_13_end
          by (simp add: feed_append split: sum.splits)
      next
        case (Cons d ds)
        show ?thesis
        proof (cases "d = 10")
          case d: True
          have IH: "read_all q (split_lines [] ds) = run q False ds" for q
            using 2(2) [OF n10 True Cons d] by simp
          show ?thesis
            unfolding True Cons d split_lines_13_10 run_13_10
            by (simp add: feed_append IH split: sum.splits)
        next
          case d: False
          have IH: "read_all q (split_lines [] (d # ds)) = run q False (d # ds)" for q
            using 2(3) [OF n10 True Cons d] by (simp add: Cons)
          show ?thesis
            unfolding True Cons split_lines_13_other [OF d] run_13_other [OF d]
            by (simp add: feed_append IH split: sum.splits)
        qed
      qed
    next
      case False
      have IH: "read_all p (split_lines (cur @ [c]) cs)
          = (case feed p (cur @ [c]) of Inl e \<Rightarrow> Inl e | Inr q \<Rightarrow> run q True cs)"
        using 2(4) [OF n10 False, of p] by (simp split: sum.splits)
      show ?thesis
        unfolding split_lines_other [OF n10 False] run_other [OF n10 False] IH
        by (simp add: feed_append split: sum.splits)
    qed
  qed
qed

lemma read_all_run: "read_all parse_reset (file_lines text) = run parse_reset False text"
  by (simp add: file_lines_def read_all_split_lines)

lemmas parser_defs = parse_process_char_def start_field_def parse_add_char_def
  parse_save_field_def end_line_def parse_reset_def

lemma run_13_10_char:
  "run p pending (13 # 10 # ds)
     = (case parse_process_char p (Some 13) of Inl e \<Rightarrow> Inl e | Inr q \<Rightarrow> run q True (10 # ds))"
  by (simp add: run_13_10 run_10 split: sum.splits)

lemma special_iff: "needs_quotes (c # g) \<longleftrightarrow> (c = 44 \<or> c = 34 \<or> c = 13 \<or> c = 10) \<or> needs_quotes g"
  by (simp add: needs_quotes_def)

lemma run_plain:
  assumes "\<not> needs_quotes g" "length f + length g \<le> field_limit"
  shows "run \<lparr>rstate = IN_FIELD, rfields = fs, rfield = f\<rparr> pending (g @ rest)
     = run \<lparr>rstate = IN_FIELD, rfields = fs, rfield = f @ g\<rparr> (pending \<or> g \<noteq> []) rest"
  using assms
proof (induction g arbitrary: f pending)
  case Nil
  show ?case by simp
next
  case (Cons c g)
  then have c: "c \<noteq> 44" "c \<noteq> 34" "c \<noteq> 13" "c \<noteq> 10" and g: "\<not> needs_quotes g"
    by (simp_all add: special_iff)
  have len: "\<not> field_limit \<le> length f" "length (f @ [c]) + length g \<le> field_limit"
    using Cons.prems(2) by simp_all
  have "run \<lparr>rstate = IN_FIELD, rfields = fs, rfield = f\<rparr> pending ((c # g) @ rest)
      = run \<lparr>rstate = IN_FIELD, rfields = fs, rfield = f @ [c]\<rparr> True (g @ rest)"
    using c len(1) by (simp add: run_other parser_defs)
  also have "\<dots> = run \<lparr>rstate = IN_FIELD, rfields = fs, rfield = (f @ [c]) @ g\<rparr> (True \<or> g \<noteq> []) rest"
    by (rule Cons.IH [OF g len(2)])
  finally show ?case by simp
qed

lemma double_quotes_Cons:
  "double_quotes (c # g) = (if c = 34 then [34, 34] else [c]) @ double_quotes g"
  by (simp add: double_quotes_def)

lemma run_quoted:
  assumes "length f + length g \<le> field_limit"
  shows "run \<lparr>rstate = IN_QUOTED_FIELD, rfields = fs, rfield = f\<rparr> pending
           (double_quotes g @ 34 # rest)
     = run \<lparr>rstate = QUOTE_IN_QUOTED_FIELD, rfields = fs, rfield = f @ g\<rparr> True rest"
  using assms
proof (induction g arbitrary: f pending)
  case Nil
  show ?case by (simp add: double_quotes_def run_other parser_defs)
next
  case (Cons c g)
  have len: "\<not> field_limit \<le> length f" "length (f @ [c]) + length g \<le> field_limit"
    using Cons.prems by simp_all
  note IH = Cons.IH [OF len(2)]
  note dq = double_quotes_Cons
  consider "c = 34" | "c = 10" | "c = 13" | "c \<noteq> 34" "c \<noteq> 10" "c \<noteq> 13" by blast
  then have "run \<lparr>rstate = IN_QUOTED_FIELD, rfields = fs, rfield = f\<rparr> pending
           (double_quotes (c # g) @ 34 # rest)
     = run \<lparr>rstate = QUOTE_IN_QUOTED_FIELD, rfields = fs, rfield = (f @ [c]) @ g\<rparr> True rest"
  proof cases
    case 1
    then show ?thesis using len(1) IH [of True] by (simp add: dq run_other parser_defs)
  next
    case 2
    then show ?thesis using len(1) IH [of False] by (simp add: dq run_10 parser_defs)
  next
    case 3
    obtain d ds where next_char: "double_quotes g @ 34 # rest = d # ds"
      by (cases "double_quotes g @ 34 # rest") auto
    show ?thesis
    proof (cases "d = 10")
      case True
      have "run \<lparr>rstate = IN_QUOTED_FIELD, rfields = fs, rfield = f\<rparr> pending (13 # 10 # ds)
          = run \<lparr>rstate = IN_QUOTED_FIELD, rfields = fs, rfield = f @ [13]\<rparr> True (10 # ds)"
        using len(1) by (simp add: run_13_10_char parser_defs)
      then show ?thesis
        using 3 True next_char IH [of True] by (simp add: dq)
    next
      case False
      have "run \<lparr>rstate = IN_QUOTED_FIELD, rfields = fs, rfield = f\<rparr> pending (13 # d # ds)
          = run \<lparr>rstate = IN_QUOTED_FIELD, rfields = fs, rfield = f @ [13]\<rparr> False (d # ds)"
        using len(1) False by (simp add: run_13_other parser_defs)
      then show ?thesis
        using 3 next_char IH [of False] by (simp add: dq)
    qed
  next
    case 4
    then show ?thesis using len(1) IH [of True] by (simp add: dq run_other parser_defs)
  qed
  then show ?case by simp
qed

lemma join_field_plain: "\<not> needs_quotes f \<Longrightarrow> join_field f = f"
  by (simp add: join_field_def)

lemma run_field_comma:
  assumes "length f \<le> field_limit"
  shows "run \<lparr>rstate = START_FIELD, rfields = fs, rfield = []\<rparr> pending (join_field f @ 44 # rest)
     = run \<lparr>rstate = START_FIELD, rfields = fs @ [f], rfield = []\<rparr> True rest"
proof (cases "needs_quotes f")
  case True
  have "run \<lparr>rstate = START_FIELD, rfields = fs, rfield = []\<rparr> pending (join_field f @ 44 # rest)
      = run \<lparr>rstate = IN_QUOTED_FIELD, rfields = fs, rfield = []\<rparr> True
          (double_quotes f @ 34 # 44 # rest)"
    using True by (simp add: join_field_def run_other parser_defs)
  also have "\<dots> = run \<lparr>rstate = QUOTE_IN_QUOTED_FIELD, rfields = fs, rfield = [] @ f\<rparr> True
      (44 # rest)"
    using assms by (intro run_quoted) simp
  finally show ?thesis by (simp add: run_other parser_defs)
next
  case False
  show ?thesis
  proof (cases f)
    case Nil
    then show ?thesis by (simp add: join_field_def needs_quotes_def run_other parser_defs)
  next
    case (Cons c g)
    with False have c: "c \<noteq> 44" "c \<noteq> 34" "c \<noteq> 13" "c \<noteq> 10" and g: "\<not> needs_quotes g"
      by (simp_all add: special_iff)
    have lim: "0 < field_limit" by (simp add: field_limit_def)
    have "run \<lparr>rstate = START_FIELD, rfields = fs, rfield = []\<rparr> pending (join_field f @ 44 # rest)
        = run \<lparr>rstate = IN_FIELD, rfields = fs, rfield = [c]\<rparr> True (g @ 44 # rest)"
      using False c lim by (simp add: join_field_plain Cons run_other parser_defs)
    also have "\<dots> = run \<lparr>rstate = IN_FIELD, rfields = fs, rfield = [c] @ g\<rparr> (True \<or> g \<noteq> [])
        (44 # rest)"
      using g assms by (intro run_plain) (simp_all add: Cons)
    finally show ?thesis by (simp add: Cons run_other parser_defs)
  qed
qed

lemma run_line_end:
  assumes "st = START_FIELD \<or> st = IN_FIELD \<or> st = QUOTE_IN_QUOTED_FIELD"
  shows "run \<lparr>rstate = st, rfields = fs, rfield = f\<rparr> pending (13 # 10 # rest)
     = and_then [fs @ [f]] (run parse_reset False rest)"
  using assms by (auto simp: run_13_10 parser_defs)

lemma run_field_end:
  assumes "length f \<le> field_limit"
  shows "run \<lparr>rstate = START_FIELD, rfields = fs, rfield = []\<rparr> pending
           (join_field f @ 13 # 10 # rest)
     = and_then [fs @ [f]] (run parse_reset False rest)"
proof (cases "needs_quotes f")
  case True
  have "run \<lparr>rstate = START_FIELD, rfields = fs, rfield = []\<rparr> pending
          (join_field f @ 13 # 10 # rest)
      = run \<lparr>rstate = IN_QUOTED_FIELD, rfields = fs, rfield = []\<rparr> True
          (double_quotes f @ 34 # 13 # 10 # rest)"
    using True by (simp add: join_field_def run_other parser_defs)
  also have "\<dots> = run \<lparr>rstate = QUOTE_IN_QUOTED_FIELD, rfields = fs, rfield = [] @ f\<rparr> True
      (13 # 10 # rest)"
    using assms by (intro run_quoted) simp
  finally show ?thesis by (simp add: run_line_end)
next
  case False
  show ?thesis
  proof (cases f)
    case Nil
    then show ?thesis by (simp add: join_field_def needs_quotes_def run_line_end)
  next
    case (Cons c g)
    with False have c: "c \<noteq> 44" "c \<noteq> 34" "c \<noteq> 13" "c \<noteq> 10" and g: "\<not> needs_quotes g"
      by (simp_all add: special_iff)
    have lim: "0 < field_limit" by (simp add: field_limit_def)
    have "run \<lparr>rstate = START_FIELD, rfields = fs, rfield = []\<rparr> pending
            (join_field f @ 13 # 10 # rest)
        = run \<lparr>rstate = IN_FIELD, rfields = fs, rfield = [c]\<rparr> True (g @ 13 # 10 # rest)"
      using False c lim by (simp add: join_field_plain Cons run_other parser_defs)
    also have "\<dots> = run \<lparr>rstate = IN_FIELD, rfields = fs, rfield = [c] @ g\<rparr> (True \<or> g \<noteq> [])
        (13 # 10 # rest)"
      using g assms by (intro run_plain) (simp_all add: Cons)
    finally show ?thesis by (simp add: Cons run_line_end)
  qed
qed

lemma run_fields:
  assumes "r \<noteq> []" "\<forall>f\<in>set r. length f \<le> field_limit"
  shows "run \<lparr>rstate = START_FIELD, rfields = fs, rfield = []\<rparr> pending
           (join_fields r @ 13 # 10 # rest)
     = and_then [fs @ r] (run parse_reset False rest)"
  using assms
proof (induction r arbitrary: fs pending rule: join_fields.induct)
  case 1
  then show ?case by simp
next
  case (2 f)
  then show ?case by (simp add: run_field_end)
next
  case (3 f g r)
  have "run \<lparr>rstate = START_FIELD, rfields = fs, rfield = []\<rparr> pending
           (join_fields (f # g # r) @ 13 # 10 # rest)
      = run \<lparr>rstate = START_FIELD, rfields = fs @ [f], rfield = []\<rparr> True
           (join_fields (g # r) @ 13 # 10 # rest)"
    using 3(3) by (simp add: run_field_comma)
  also have "\<dots> = and_then [(fs @ [f]) @ g # r] (run parse_reset False rest)"
    using 3(3) by (intro 3(1)) simp_all
  finally show ?case by simp
qed

lemma run_Cons:
  "run p pending (c # cs)
     = (case parse_process_char p (Some c) of
          Inl e \<Rightarrow> Inl e
        | Inr q \<Rightarrow>
            if c = 10 \<or> (c = 13 \<and> (case cs of [] \<Rightarrow> True | d # ds \<Rightarrow> d \<noteq> 10))
            then (case end_line q of
                    Inl e \<Rightarrow> Inl e
                  | Inr (rows, q') \<Rightarrow> and_then rows (run q' False cs))
            else run q True cs)"
proof (cases "c = 10")
  case True
  then show ?thesis by (simp add: run_10 split: sum.splits)
next
  case n10: False
  show ?thesis
  proof (cases "c = 13")
    case True
    show ?thesis
    proof (cases cs)
      case Nil
      then show ?thesis using True by (simp add: run_13_end split: sum.splits)
    next
      case (Cons d ds)
      then show ?thesis using True
        by (cases "d = 10") (simp_all add: run_13_10_char run_13_other split: sum.splits)
    qed
  next
    case False
    then show ?thesis using n10 by (simp add: run_other split: sum.splits)
  qed
qed

lemma run_start_record:
  "c \<noteq> 10 \<Longrightarrow> c \<noteq> 13 \<Longrightarrow>
   run parse_reset pending (c # cs)
     = run \<lparr>rstate = START_FIELD, rfields = [], rfield = []\<rparr> pending (c # cs)"
  by (simp add: run_other parser_defs)

lemma join_field_hd:
  "f \<noteq> [] \<Longrightarrow> \<exists>c cs. join_field f = c # cs \<and> c \<noteq> 10 \<and> c \<noteq> 13"
  by (cases f) (auto simp: join_field_def special_iff)

lemma join_fields_hd:
  assumes "r \<noteq> []" "r \<noteq> [[]]"
  shows "\<exists>c cs. join_fields r @ rest = c # cs \<and> c \<noteq> 10 \<and> c \<noteq> 13"
proof (cases r rule: join_fields.cases)
  case 1
  with assms show ?thesis by simp
next
  case (2 f)
  with assms have "f \<noteq> []" by simp
  from join_field_hd [OF this] show ?thesis using 2 by auto
next
  case (3 f g fs)
  show ?thesis
  proof (cases "f = []")
    case True
    then show ?thesis using 3 by (simp add: join_field_def needs_quotes_def)
  next
    case False
    from join_field_hd [OF this] show ?thesis using 3 by auto
  qed
qed

lemma run_csv_line:
  assumes "\<forall>f\<in>set r. length f \<le> field_limit"
  shows "run parse_reset False (csv_line r @ rest) = and_then [r] (run parse_reset False rest)"
proof -
  consider "r = []" | "r = [[]]" | "r \<noteq> []" "r \<noteq> [[]]" by blast
  then show ?thesis
  proof cases
    case 1
    then show ?thesis by (simp add: csv_line_def run_13_10 parser_defs)
  next
    case 2
    have "run parse_reset False (34 # 34 # 13 # 10 # rest)
        = run \<lparr>rstate = QUOTE_IN_QUOTED_FIELD, rfields = [], rfield = []\<rparr> True (13 # 10 # rest)"
      by (simp add: run_other parser_defs)
    then show ?thesis using 2 by (simp add: csv_line_def run_line_end)
  next
    case 3
    obtain c cs where c: "join_fields r @ 13 # 10 # rest = c # cs" "c \<noteq> 10" "c \<noteq> 13"
      using join_fields_hd [OF 3] by blast
    have "run parse_reset False (join_fields r @ 13 # 10 # rest)
        = run \<lparr>rstate = START_FIELD, rfields = [], rfield = []\<rparr> False
            (join_fields r @ 13 # 10 # rest)"
      unfolding c(1) using c(2,3) by (rule run_start_record)
    also have "\<dots> = and_then [[] @ r] (run parse_reset False rest)"
      using 3(1) assms by (rule run_fields)
    finally show ?thesis using 3 by (simp add: csv_line_def)
  qed
qed

lemma csv_text_Cons: "csv_text (r # rows) = csv_line r @ csv_text rows"
  by (simp add: csv_text_def)

lemma csv_text_append: "csv_text (a @ b) = csv_text a @ csv_text b"
  by (simp add: csv_text_def)

lemma run_csv_text:
  assumes "\<forall>r\<in>set rows. \<forall>f\<in>set r. length f \<le> field_limit"
  shows "run parse_reset False (csv_text rows @ rest) = and_then rows (run parse_reset False rest)"
  using assms
proof (induction rows)
  case Nil
  show ?case by (simp add: csv_text_def)
next
  case (Cons r rows)
  then show ?case by (simp add: csv_text_Cons run_csv_line)
qed

lemma csv_reader_run:
  "csv_reader text =
     (case run parse_reset False text of
        Inl e \<Rightarrow> Inl e
      | Inr (rows, p) \<Rightarrow>
          Inr (rows @ (if rfield p \<noteq> [] \<or> rstate p = IN_QUOTED_FIELD
                       then [rfields p @ [rfield p]] else [])))"
  by (simp add: csv_reader_def read_all_run)

lemma csv_reader_csv_text:
  assumes "\<forall>r\<in>set rows. \<forall>f\<in>set r. length f \<le> field_limit"
  shows "csv_reader (csv_text rows) = Inr rows"
  using run_csv_text [OF assms, of "[]"] by (simp add: csv_reader_run parse_reset_def)

text \<open>Reading after a text that ends a line.\<close>

lemma run_append:
  assumes "a \<noteq> []" "last a = 10 \<or> (last a = 13 \<and> (case b of [] \<Rightarrow> True | d # ds \<Rightarrow> d \<noteq> 10))"
  shows "run p pending (a @ b)
     = (case run p pending a of Inl e \<Rightarrow> Inl e | Inr (rows, q) \<Rightarrow> and_then rows (run q False b))"
  using assms
proof (induction a arbitrary: p pending)
  case Nil
  then show ?case by simp
next
  case (Cons c cs)
  show ?case
  proof (cases "cs = []")
    case True
    with Cons.prems show ?thesis
      by (auto simp: run_Cons split: sum.splits list.splits)
  next
    case False
    then obtain d ds where cs: "cs = d # ds" by (cases cs) auto
    have IH: "run q pend (cs @ b)
        = (case run q pend cs of Inl e \<Rightarrow> Inl e | Inr (rows, q') \<Rightarrow> and_then rows (run q' False b))"
      for q pend
      using Cons.prems False by (intro Cons.IH) simp_all
    show ?thesis
      unfolding append_Cons run_Cons [of p pending c "cs @ b"] run_Cons [of p pending c cs] IH
      by (simp add: cs split: sum.splits)
  qed
qed

text \<open>A reader at the start of a record is the initial reader.\<close>

lemma process_Some_not_start:
  "parse_process_char p (Some c) = Inr q \<Longrightarrow> rstate q \<noteq> START_RECORD"
  by (auto simp: parser_defs split: parser_state.splits if_splits)

lemma end_line_fresh:
  assumes "end_line p = Inr (rows, q)" "rstate q = START_RECORD"
  shows "q = parse_reset"
  using assms by (auto simp: end_line_def split: sum.splits if_splits)

lemma run_fresh:
  assumes "run p pending text = Inr (rows, q)" "rstate q = START_RECORD"
    "rstate p = START_RECORD \<longrightarrow> p = parse_reset"
  shows "q = parse_reset"
  using assms
proof (induction "text" arbitrary: p pending rows)
  case Nil
  then show ?case by (auto simp: end_line_fresh split: if_splits)
next
  case (Cons c cs)
  from Cons.prems(1) obtain p1 where p1: "parse_process_char p (Some c) = Inr p1"
    by (auto simp: run_Cons split: sum.splits)
  have n: "rstate p1 \<noteq> START_RECORD" using p1 by (rule process_Some_not_start)
  show ?case
  proof (cases "c = 10 \<or> (c = 13 \<and> (case cs of [] \<Rightarrow> True | d # ds \<Rightarrow> d \<noteq> 10))")
    case True
    with Cons.prems(1) p1 obtain rows1 q1 rows2 where
      e: "end_line p1 = Inr (rows1, q1)" and r: "run q1 False cs = Inr (rows2, q)"
      by (auto simp: run_Cons and_then_def split: sum.splits)
    have "rstate q1 = START_RECORD \<longrightarrow> q1 = parse_reset" using e by (auto intro: end_line_fresh)
    with r Cons.prems(2) show ?thesis by (rule Cons.IH)
  next
    case False
    with Cons.prems(1) p1 have "run p1 True cs = Inr (rows, q)"
      by (auto simp: run_Cons split: sum.splits)
    then show ?thesis using Cons.prems(2) n by (intro Cons.IH [of p1 True rows]) simp_all
  qed
qed

section \<open>Text and integers\<close>

declare dec_digits.simps [simp del]
lemma digits_value_snoc: "digits_value (ds @ [c]) = 10 * digits_value ds + (c - 48)"
  by (simp add: digits_value_def)

lemma dec_digits_nonempty: "dec_digits n \<noteq> []"
  by (subst dec_digits.simps) simp

lemma dec_digits_ascii: "list_all is_ascii_digit (dec_digits n)"
proof (induction n rule: dec_digits.induct)
  case (1 n)
  show ?case
  proof (cases "n < 10")
    case True
    then show ?thesis by (subst dec_digits.simps) (simp add: is_ascii_digit_def)
  next
    case False
    have "n mod 10 < 10" by simp
    then have "is_ascii_digit (48 + n mod 10)" unfolding is_ascii_digit_def by linarith
    with False 1 show ?thesis by (subst dec_digits.simps) simp
  qed
qed

lemma dec_digits_value: "digits_value (dec_digits n) = n"
proof (induction n rule: dec_digits.induct)
  case (1 n)
  show ?case
  proof (cases "n < 10")
    case True
    then show ?thesis by (subst dec_digits.simps) (simp add: digits_value_def)
  next
    case False
    with 1 show ?thesis by (subst dec_digits.simps) (simp add: digits_value_snoc)
  qed
qed

lemma to_ascii_digits: "list_all is_ascii_digit ds \<Longrightarrow> map to_ascii_char ds = ds"
  by (induction ds) (simp_all add: to_ascii_char_def is_ascii_digit_def)

lemma digit_not_space: "is_ascii_digit c \<Longrightarrow> \<not> is_py_space c"
  by (auto simp: is_ascii_digit_def is_py_space_def)

lemma dropWhile_hd: "xs \<noteq> [] \<Longrightarrow> \<not> P (hd xs) \<Longrightarrow> dropWhile P xs = xs"
  by (cases xs) simp_all

lemma strip_spaces_id:
  assumes "s \<noteq> []" "\<not> is_py_space (hd s)" "\<not> is_py_space (last s)"
  shows "strip_spaces s = s"
proof -
  have "dropWhile is_py_space s = s" using assms(1,2) by (rule dropWhile_hd)
  moreover have "dropWhile is_py_space (rev s) = rev s"
    using assms(1,3) by (intro dropWhile_hd) (simp_all add: hd_rev)
  ultimately show ?thesis by (simp add: strip_spaces_def)
qed

lemma drop_underscores_digits:
  "list_all is_ascii_digit ds \<Longrightarrow> prev \<noteq> 95 \<or> ds \<noteq> [] \<Longrightarrow> drop_underscores prev ds = Some ds"
proof (induction ds arbitrary: prev)
  case Nil
  then show ?case by simp
next
  case (Cons c ds)
  then have c: "is_ascii_digit c" "c \<noteq> 95" by (auto simp: is_ascii_digit_def)
  have "drop_underscores c ds = Some ds" using Cons c by simp
  with c show ?case by simp
qed

lemma digits_hd_last:
  assumes "list_all is_ascii_digit ds" "ds \<noteq> []"
  shows "is_ascii_digit (hd ds)" "is_ascii_digit (last ds)"
  using assms by (auto simp: list_all_iff)

lemma split_sign_digits:
  assumes "list_all is_ascii_digit ds" "ds \<noteq> []"
  shows "split_sign ds = (False, ds)"
  using assms by (cases ds) (auto simp: is_ascii_digit_def)

lemma dec_digits_length: "n < 10 ^ k \<Longrightarrow> 0 < k \<Longrightarrow> length (dec_digits n) \<le> k"
proof (induction n arbitrary: k rule: dec_digits.induct)
  case (1 n)
  show ?case
  proof (cases "n < 10")
    case True
    then show ?thesis using 1(3) by (subst dec_digits.simps) simp
  next
    case False
    obtain j where k: "k = Suc j" using 1(3) by (cases k) auto
    have "j \<noteq> 0" using False 1(2) by (cases j) (simp_all add: k)
    moreover have "n div 10 < 10 ^ j" using 1(2) by (simp add: k less_mult_imp_div_less)
    ultimately have "length (dec_digits (n div 10)) \<le> j" using 1(1) [OF False] by simp
    then show ?thesis using False by (subst dec_digits.simps) (simp add: k)
  qed
qed

lemma py_int_digits:
  assumes "list_all is_ascii_digit ds" "ds \<noteq> []" "length ds \<le> max_str_digits"
  shows "py_int ds = Inr (int (digits_value ds))"
proof -
  have "strip_spaces ds = ds"
    using digits_hd_last [OF assms(1,2)] assms(2)
    by (intro strip_spaces_id) (auto dest: digit_not_space)
  then show ?thesis
    using assms by (simp add: py_int_def to_ascii_digits split_sign_digits drop_underscores_digits)
qed

lemma py_int_minus_digits:
  assumes "list_all is_ascii_digit ds" "ds \<noteq> []" "length ds \<le> max_str_digits"
  shows "py_int (45 # ds) = Inr (- int (digits_value ds))"
proof -
  have "is_ascii_digit (last ds)" using digits_hd_last [OF assms(1,2)] by simp
  then have "strip_spaces (45 # ds) = 45 # ds"
    using assms(2) by (intro strip_spaces_id) (auto dest: digit_not_space simp: is_py_space_def)
  moreover have "map to_ascii_char (45 # ds) = 45 # ds"
    using assms(1) by (simp add: to_ascii_digits to_ascii_char_def)
  ultimately show ?thesis
    using assms by (simp add: py_int_def drop_underscores_digits)
qed

lemma dec_digits_nat_length:
  assumes "\<bar>i\<bar> < 10 ^ max_str_digits"
  shows "length (dec_digits (nat \<bar>i\<bar>)) \<le> max_str_digits"
proof -
  have "int (nat \<bar>i\<bar>) < int (10 ^ max_str_digits)" using assms by simp
  then have "nat \<bar>i\<bar> < 10 ^ max_str_digits" by (simp only: of_nat_less_iff)
  then show ?thesis by (rule dec_digits_length) (simp add: max_str_digits_def)
qed

lemma py_int_str_of_int:
  assumes "\<bar>i\<bar> < 10 ^ max_str_digits"
  shows "py_int (str_of_int i) = Inr i"
proof (cases "i < 0")
  case True
  then have "nat \<bar>i\<bar> = nat (- i)" by simp
  with dec_digits_nat_length [OF assms] True show ?thesis
    by (simp add: str_of_int_def py_int_minus_digits dec_digits_ascii dec_digits_nonempty
        dec_digits_value)
next
  case False
  then have "nat \<bar>i\<bar> = nat i" by simp
  with dec_digits_nat_length [OF assms] False show ?thesis
    by (simp add: str_of_int_def py_int_digits dec_digits_ascii dec_digits_nonempty
        dec_digits_value)
qed

lemma ascii_digit_encodable: "is_ascii_digit c \<Longrightarrow> encodable c"
  by (simp add: is_ascii_digit_def encodable_def)

lemma str_of_int_writable:
  assumes "\<bar>i\<bar> < 10 ^ max_str_digits"
  shows "writable (str_of_int i)"
proof -
  have enc: "list_all encodable (dec_digits n)" for n
    using dec_digits_ascii [of n] by (auto simp: list_all_iff ascii_digit_encodable)
  have "length (dec_digits (nat \<bar>i\<bar>)) \<le> 4300"
    using dec_digits_nat_length [OF assms] by (simp add: max_str_digits_def)
  moreover have "nat \<bar>i\<bar> = (if i < 0 then nat (- i) else nat i)" by simp
  ultimately show ?thesis
    by (auto simp: writable_def str_of_int_def enc encodable_def field_limit_def)
qed

section \<open>What the reader returns\<close>

lemma process_within:
  assumes "fields_within A (rfield p # rfields p)" "parse_process_char p ch = Inr q"
    "\<forall>c. ch = Some c \<longrightarrow> c \<in> A"
  shows "fields_within A (rfield q # rfields q)"
  using assms
  by (cases "rstate p"; cases ch)
     (auto simp: parser_defs fields_within_def subset_iff split: if_splits)

lemma end_line_within:
  assumes "fields_within A (rfield p # rfields p)" "end_line p = Inr (rows, q)"
  shows "fields_within A (rfield q # rfields q) \<and> (\<forall>r\<in>set rows. fields_within A r)"
proof -
  from assms(2) obtain p1 where p1: "parse_process_char p None = Inr p1"
    by (auto simp: end_line_def split: sum.splits)
  have w: "fields_within A (rfield p1 # rfields p1)"
    using assms(1) p1 by (rule process_within) simp
  show ?thesis
    using assms(2) w unfolding end_line_def p1
    by (auto simp: fields_within_def parse_reset_def subset_iff split: if_splits)
qed

lemma run_within:
  assumes "run p pending text = Inr (rows, q)" "fields_within A (rfield p # rfields p)"
    "set text \<subseteq> A"
  shows "fields_within A (rfield q # rfields q) \<and> (\<forall>r\<in>set rows. fields_within A r)"
  using assms
proof (induction "text" arbitrary: p pending rows)
  case Nil
  then show ?case by (auto dest: end_line_within split: if_splits)
next
  case (Cons c cs)
  from Cons.prems(1) obtain p1 where p1: "parse_process_char p (Some c) = Inr p1"
    by (auto simp: run_Cons split: sum.splits)
  have w1: "fields_within A (rfield p1 # rfields p1)"
    using Cons.prems(2) p1 by (rule process_within) (use Cons.prems(3) in simp)
  have cs: "set cs \<subseteq> A" using Cons.prems(3) by simp
  show ?case
  proof (cases "c = 10 \<or> (c = 13 \<and> (case cs of [] \<Rightarrow> True | d # ds \<Rightarrow> d \<noteq> 10))")
    case True
    with Cons.prems(1) p1 obtain rows1 q1 rows2 where
      e: "end_line p1 = Inr (rows1, q1)" and r: "run q1 False cs = Inr (rows2, q)"
      and rows: "rows = rows1 @ rows2"
      by (auto simp: run_Cons and_then_def split: sum.splits)
    from end_line_within [OF w1 e] Cons.IH [OF r _ cs] show ?thesis by (auto simp: rows)
  next
    case False
    with Cons.prems(1) p1 have "run p1 True cs = Inr (rows, q)"
      by (auto simp: run_Cons split: sum.splits)
    from Cons.IH [OF this w1 cs] show ?thesis .
  qed
qed

lemma csv_reader_within:
  assumes "csv_reader text = Inr rows"
  shows "\<forall>r\<in>set rows. fields_within (set text) r"
proof -
  from assms obtain rows1 q where r: "run parse_reset False text = Inr (rows1, q)"
    and rows: "rows = rows1 @ (if rfield q \<noteq> [] \<or> rstate q = IN_QUOTED_FIELD
                       then [rfields q @ [rfield q]] else [])"
    by (auto simp: csv_reader_run split: sum.splits)
  have "fields_within (set text) (rfield parse_reset # rfields parse_reset)"
    by (simp add: fields_within_def parse_reset_def)
  from run_within [OF r this] show ?thesis
    by (auto simp: rows fields_within_def subset_iff)
qed

lemma load_writable:
  assumes "load_transactions self fs = Inr rows"
  shows "\<forall>r\<in>set rows. \<forall>f\<in>set r. writable f"
proof -
  from assms obtain content t where t: "utf8_decode content = Inr t" "csv_reader t = Inr rows"
    by (auto simp: load_transactions_def split: option.splits sum.splits)
  have "list_all encodable t" using t(1) by (rule utf8_decode_encodable)
  with csv_reader_within [OF t(2)] show ?thesis
    by (auto simp: fields_within_def writable_def list_all_iff)
qed

section \<open>What the writer writes\<close>

lemma field_text_PStr: "map (field_text \<circ> PStr) r = r"
  by (induction r) simp_all

lemma map_field_text_PStr: "map (map field_text) (map (map PStr) rows) = rows"
  by (induction rows) (simp_all add: field_text_PStr)

lemma storable_PStr: "list_all storable (map PStr r) \<longleftrightarrow> (\<forall>f\<in>set r. writable f)"
  by (induction r) simp_all

lemma field_text_writable: "storable v \<Longrightarrow> writable (field_text v)"
  by (cases v) (simp_all add: str_of_int_writable)

lemma field_texts_storable: "list_all storable vs \<Longrightarrow> field_texts vs = Inr (map field_text vs)"
proof (induction vs)
  case Nil
  show ?case by simp
next
  case (Cons v vs)
  then show ?case by (cases v) simp_all
qed

lemma double_quotes_encodable: "list_all encodable f \<Longrightarrow> list_all encodable (double_quotes f)"
proof (induction f)
  case Nil
  show ?case by (simp add: double_quotes_def)
next
  case (Cons c f)
  then show ?case by (simp add: double_quotes_Cons) (simp add: encodable_def)
qed

lemma join_field_encodable: "list_all encodable f \<Longrightarrow> list_all encodable (join_field f)"
  by (simp add: join_field_def double_quotes_encodable) (simp add: encodable_def)

lemma join_fields_encodable:
  "\<forall>f\<in>set r. list_all encodable f \<Longrightarrow> list_all encodable (join_fields r)"
proof (induction r rule: join_fields.induct)
  case 1
  show ?case by simp
next
  case (2 f)
  then show ?case by (simp add: join_field_encodable)
next
  case (3 f g fs)
  then show ?case by (simp add: join_field_encodable) (simp add: encodable_def)
qed

lemma csv_line_encodable:
  "\<forall>f\<in>set r. list_all encodable f \<Longrightarrow> list_all encodable (csv_line r)"
  by (simp add: csv_line_def join_fields_encodable) (simp add: encodable_def)

lemma csv_text_encodable:
  "\<forall>r\<in>set rows. \<forall>f\<in>set r. list_all encodable f \<Longrightarrow> list_all encodable (csv_text rows)"
  by (induction rows) (simp_all add: csv_text_def csv_line_encodable)

lemma writerow_storable:
  assumes "list_all storable vs"
  shows "writerow vs = Inr (utf8_bytes (csv_line (map field_text vs)))"
proof -
  have "\<forall>f\<in>set (map field_text vs). list_all encodable f"
    using assms by (auto simp: list_all_iff dest!: field_text_writable simp: writable_def)
  then have "list_all encodable (csv_line (map field_text vs))" by (rule csv_line_encodable)
  then show ?thesis
    using assms by (simp add: writerow_def field_texts_storable utf8_encode_def)
qed

lemma writerows_storable:
  "\<forall>r\<in>set rs. list_all storable r \<Longrightarrow>
   writerows rs written = (Inr (), written @ utf8_bytes (csv_text (map (map field_text) rs)))"
proof (induction rs arbitrary: written)
  case Nil
  show ?case by (simp add: csv_text_def utf8_bytes_def)
next
  case (Cons r rs)
  then show ?case by (simp add: writerow_storable csv_text_Cons utf8_bytes_append)
qed

lemma field_texts_error: "field_texts vs = Inl e \<Longrightarrow> e = ValueError"
proof (induction vs)
  case Nil
  then show ?case by simp
next
  case (Cons v vs)
  then show ?case by (cases v) (auto split: sum.splits if_splits)
qed

lemma writerow_error: "writerow vs = Inl e \<Longrightarrow> e = ValueError \<or> e = UnicodeEncodeError"
  by (auto simp: writerow_def utf8_encode_def dest: field_texts_error split: sum.splits if_splits)

lemma writerows_error:
  "fst (writerows rs written) = Inl e \<Longrightarrow> e = ValueError \<or> e = UnicodeEncodeError"
proof (induction rs arbitrary: written)
  case Nil
  then show ?case by simp
next
  case (Cons r rs)
  then show ?case by (auto dest: writerow_error split: sum.splits)
qed

section \<open>Saving and loading\<close>

lemma load_csv_text:
  assumes "\<forall>r\<in>set rows. \<forall>f\<in>set r. writable f"
    and "fs (filename self) = Some (utf8_bytes (csv_text rows))"
  shows "load_transactions self fs = Inr rows"
proof -
  have "list_all encodable (csv_text rows)"
    using assms(1) by (intro csv_text_encodable) (simp add: writable_def)
  then have "utf8_decode (utf8_bytes (csv_text rows)) = Inr (csv_text rows)"
    by (rule utf8_decode_bytes)
  moreover have "csv_reader (csv_text rows) = Inr rows"
    using assms(1) by (intro csv_reader_csv_text) (simp add: writable_def)
  ultimately show ?thesis using assms(2) by (simp add: load_transactions_def)
qed

lemma load_store_of:
  "\<forall>r\<in>set rows. \<forall>f\<in>set r. writable f \<Longrightarrow> load_transactions ledger (store_of rows) = Inr rows"
  by (rule load_csv_text) (simp_all add: store_of_def)

lemma save_storable:
  assumes "\<forall>r\<in>set rs. list_all storable r"
  shows "save_transactions self rs fs
     = (Inr (), fs(filename self \<mapsto> utf8_bytes (csv_text (map (map field_text) rs))))"
  using writerows_storable [OF assms, of "[]"] by (simp add: save_transactions_def)

lemma load_after_save:
  assumes "\<forall>r\<in>set rs. list_all storable r"
  shows "load_transactions self (snd (save_transactions self rs fs))
     = Inr (map (map field_text) rs)"
proof -
  have "\<forall>r\<in>set (map (map field_text) rs). \<forall>f\<in>set r. writable f"
    using assms by (auto simp: list_all_iff dest: field_text_writable)
  then show ?thesis
    by (rule load_csv_text) (simp add: save_storable [OF assms])
qed

section \<open>Appending a line\<close>

lemma parse_reset_sel [simp]:
  "rstate parse_reset = START_RECORD" "rfields parse_reset = []" "rfield parse_reset = []"
  by (simp_all add: parse_reset_def)

lemma csv_line_hd: "case csv_line r of [] \<Rightarrow> True | d # ds \<Rightarrow> d \<noteq> 10"
proof -
  consider "r = []" | "r = [[]]" | "r \<noteq> []" "r \<noteq> [[]]" by blast
  then show ?thesis
  proof cases
    case 1
    then show ?thesis by (simp add: csv_line_def)
  next
    case 2
    then show ?thesis by (simp add: csv_line_def)
  next
    case 3
    obtain c cs where "join_fields r @ [13, 10] = c # cs" "c \<noteq> 10"
      using join_fields_hd [OF 3, of "[13, 10]"] by blast
    then show ?thesis using 3 by (simp add: csv_line_def)
  qed
qed

lemma csv_line_last: "csv_line r \<noteq> []" "last (csv_line r) = 10"
  by (simp_all add: csv_line_def)

lemma run_one_line:
  "\<forall>f\<in>set r. length f \<le> field_limit \<Longrightarrow> run parse_reset False (csv_line r) = Inr ([r], parse_reset)"
  using run_csv_line [of r "[]"] by simp

lemma run_append_line:
  assumes "csv_reader t = Inr rows" "ends_record t" "\<forall>f\<in>set r. length f \<le> field_limit"
  shows "run parse_reset False (t @ csv_line r) = Inr (rows @ [r], parse_reset)"
proof (cases "t = []")
  case True
  with assms(1) have "rows = []" by (simp add: csv_reader_run parse_reset_def)
  with True show ?thesis by (simp add: run_one_line [OF assms(3)])
next
  case False
  with assms(2) obtain rows0 p where
    l: "last t = 10 \<or> last t = 13" and r: "run parse_reset False t = Inr (rows0, p)"
    and s: "rstate p = START_RECORD"
    by (auto simp: ends_record_def read_all_run split: sum.splits)
  have p: "p = parse_reset" using r s by (rule run_fresh) simp
  have rows: "rows0 = rows" using assms(1) r by (simp add: csv_reader_run p parse_reset_def)
  have "last t = 10 \<or> (last t = 13 \<and> (case csv_line r of [] \<Rightarrow> True | d # ds \<Rightarrow> d \<noteq> 10))"
    using l csv_line_hd [of r] by blast
  from run_append [OF False this, of parse_reset False] show ?thesis
    by (simp add: r p rows run_one_line [OF assms(3)])
qed

lemma csv_reader_append_line:
  assumes "csv_reader t = Inr rows" "ends_record t" "\<forall>f\<in>set r. length f \<le> field_limit"
  shows "csv_reader (t @ csv_line r) = Inr (rows @ [r])" "ends_record (t @ csv_line r)"
  using run_append_line [OF assms]
  by (simp_all add: csv_reader_run ends_record_def read_all_run csv_line_last)

lemma add_transaction_storable:
  assumes "writable (date t)" "writable (category t)" "writable (description t)"
    and "\<bar>amount t\<bar> < 10 ^ max_str_digits"
  shows "add_transaction self t fs
     = (Inr (), fs(filename self \<mapsto> (case fs (filename self) of None \<Rightarrow> [] | Some bs \<Rightarrow> bs)
          @ utf8_bytes (csv_line [date t, category t, str_of_int (amount t), description t])))"
proof -
  have "list_all storable [PStr (date t), PStr (category t), PInt (amount t), PStr (description t)]"
    using assms by simp
  from writerow_storable [OF this] show ?thesis by (simp add: add_transaction_def Let_def)
qed

section \<open>Appending a transaction\<close>

lemma str_of_int_700: "str_of_int 700 = pystr ''700''"
  by (simp add: str_of_int_def dec_digits.simps pystr_def)

lemma small_int_storable: "\<bar>i :: int\<bar> < 10000 \<Longrightarrow> \<bar>i\<bar> < 10 ^ max_str_digits"
proof -
  assume "\<bar>i\<bar> < 10000"
  moreover have "(10::int) ^ 4 \<le> 10 ^ max_str_digits"
    by (rule power_increasing) (simp_all add: max_str_digits_def)
  ultimately show ?thesis by simp
qed

lemma example_amounts: "(700::int) < 10 ^ max_str_digits" "(500::int) < 10 ^ max_str_digits"
  using small_int_storable [of 700] small_int_storable [of 500] by simp_all

lemma example_texts_writable:
  "writable (pystr ''2024-05-01'')" "writable (pystr ''2024-05-02'')"
  "writable (pystr ''2024-05-03'')" "writable (pystr ''2024-05-04'')"
  "writable (pystr ''2024-05-05'')"
  "writable income_label" "writable expense_label" "writable (pystr ''Transfer'')"
  "writable (pystr ''1000'')" "writable (pystr ''500'')" "writable (pystr ''250'')"
  "writable (pystr ''700'')" "writable (pystr ''abc'')" "writable (pystr ''1'')"
  "writable (pystr ''9007199254740992'')"
  "writable (pystr ''salary'')" "writable (pystr ''food'')" "writable (pystr ''bonus'')"
  "writable (pystr ''rent'')" "writable (pystr ''to savings'')"
  "writable (pystr ''fee'')" "writable (pystr ''sale'')" "writable (pystr ''coin'')"
  by (simp_all add: writable_def encodable_def field_limit_def pystr_def income_label_def
      expense_label_def)

lemma example_rows_writable:
  "\<forall>f\<in>set salary_row. writable f" "\<forall>f\<in>set food_row. writable f"
  "\<forall>f\<in>set bonus_row. writable f" "\<forall>f\<in>set rent_row. writable f"
  "\<forall>f\<in>set transfer_row. writable f" "\<forall>r\<in>set large_rows. \<forall>f\<in>set r. writable f"
  by (simp_all add: salary_row_def food_row_def bonus_row_def rent_row_def transfer_row_def
      large_rows_def example_texts_writable)

lemma load_examples:
  "load_transactions ledger (store_of []) = Inr []"
  "load_transactions ledger (store_of [salary_row]) = Inr [salary_row]"
  "load_transactions ledger (store_of [salary_row, food_row]) = Inr [salary_row, food_row]"
  "load_transactions ledger (store_of [salary_row, rent_row]) = Inr [salary_row, rent_row]"
  "load_transactions ledger (store_of [salary_row, food_row, bonus_row])
     = Inr [salary_row, food_row, bonus_row]"
  "load_transactions ledger (store_of [salary_row, transfer_row]) = Inr [salary_row, transfer_row]"
  "load_transactions ledger (store_of [salary_row, []]) = Inr [salary_row, []]"
  "load_transactions ledger (store_of large_rows) = Inr large_rows"
  by (rule load_store_of, simp add: example_rows_writable)+

lemma store_of_ends_record:
  assumes "\<forall>r\<in>set rows. \<forall>f\<in>set r. writable f"
  shows "store_ends_record ledger (store_of rows)"
proof -
  have "list_all encodable (csv_text rows)"
    using assms by (intro csv_text_encodable) (simp add: writable_def)
  then have d: "utf8_decode (utf8_bytes (csv_text rows)) = Inr (csv_text rows)"
    by (rule utf8_decode_bytes)
  have r: "run parse_reset False (csv_text rows) = Inr (rows, parse_reset)"
    using run_csv_text [of rows "[]"] assms by (simp add: writable_def)
  have "csv_text rows = [] \<or> last (csv_text rows) = 10"
    by (induction rows rule: rev_induct) (simp_all add: csv_text_def csv_line_last)
  then show ?thesis
    by (auto simp: store_ends_record_def store_of_def d ends_record_def read_all_run r)
qed

text \<open>
  C5 (as amended). On an existing store that ends a record, \<open>add_transaction\<close> of a
  transaction whose texts are writable and whose amount has at most 4300 digits returns
  normally, and \<open>load_transactions\<close> then gives the rows that were there, unchanged and
  in order, and one more row at the end: the date, the category and the description as
  given, and the amount as its decimal text, which \<open>int()\<close> (as in \<open>test.py\<close>) reads
  back as the amount. The store again ends a record.
\<close>

theorem add_then_load:
  assumes "load_transactions self fs = Inr rows"
    and "store_ends_record self fs"
    and "writable (date t)" "writable (category t)" "writable (description t)"
    and "\<bar>amount t\<bar> < 10 ^ max_str_digits"
  shows "fst (add_transaction self t fs) = Inr ()
     \<and> load_transactions self (snd (add_transaction self t fs))
           = Inr (rows @ [[date t, category t, str_of_int (amount t), description t]])
     \<and> py_int (str_of_int (amount t)) = Inr (amount t)
     \<and> store_ends_record self (snd (add_transaction self t fs))"
proof -
  let ?r = "[date t, category t, str_of_int (amount t), description t]"
  from assms(1) obtain content body where c: "fs (filename self) = Some content"
    and d: "utf8_decode content = Inr body" and r: "csv_reader body = Inr rows"
    by (auto simp: load_transactions_def split: option.splits sum.splits)
  have e: "ends_record body" using assms(2) by (simp add: store_ends_record_def c d)
  have w: "\<forall>f\<in>set ?r. writable f" using assms(3-6) by (simp add: str_of_int_writable)
  then have "list_all encodable (csv_line ?r)"
    by (intro csv_line_encodable) (simp add: writable_def)
  then have "utf8_decode (utf8_bytes (csv_line ?r)) = Inr (csv_line ?r)"
    by (rule utf8_decode_bytes)
  then have d': "utf8_decode (content @ utf8_bytes (csv_line ?r)) = Inr (body @ csv_line ?r)"
    by (simp add: utf8_decode_append [OF d])
  have l: "\<forall>f\<in>set ?r. length f \<le> field_limit" using w by (simp add: writable_def)
  note a = add_transaction_storable [OF assms(3-6), of self fs]
  show ?thesis
    using csv_reader_append_line [OF r e l]
    by (simp add: a c d' load_transactions_def store_ends_record_def py_int_str_of_int [OF assms(6)])
qed

theorem add_then_load_witness:
  "load_transactions ledger (store_of [salary_row, food_row]) = Inr [salary_row, food_row] \<and>
   store_ends_record ledger (store_of [salary_row, food_row]) \<and>
   load_transactions ledger
     (snd (add_transaction ledger
        \<lparr>date = pystr ''2024-05-03'', category = expense_label, amount = 700,
         description = pystr ''rent''\<rparr>
        (store_of [salary_row, food_row])))
     = Inr [salary_row, food_row, rent_row] \<and>
   py_int (pystr ''700'') = Inr 700"
  using add_then_load [of ledger "store_of [salary_row, food_row]" "[salary_row, food_row]"
      "\<lparr>date = pystr ''2024-05-03'', category = expense_label, amount = 700,
         description = pystr ''rent''\<rparr>"]
    store_of_ends_record [of "[salary_row, food_row]"]
  by (simp add: load_examples example_rows_writable example_texts_writable example_amounts
      rent_row_def str_of_int_700)

section \<open>Lines without an ending and fields that are too long\<close>

lemma needs_quotes_append: "needs_quotes (a @ b) \<longleftrightarrow> needs_quotes a \<or> needs_quotes b"
  by (simp add: needs_quotes_def)

lemma run_last_field:
  assumes "f \<noteq> []" "\<not> needs_quotes f" "length f \<le> field_limit"
  shows "run \<lparr>rstate = START_FIELD, rfields = fs, rfield = []\<rparr> pending f
     = Inr ([fs @ [f]], parse_reset)"
proof -
  obtain c g where f: "f = c # g" using assms(1) by (cases f) auto
  with assms(2) have c: "c \<noteq> 44" "c \<noteq> 34" "c \<noteq> 13" "c \<noteq> 10" and g: "\<not> needs_quotes g"
    by (simp_all add: special_iff)
  have lim: "0 < field_limit" by (simp add: field_limit_def)
  have "run \<lparr>rstate = START_FIELD, rfields = fs, rfield = []\<rparr> pending f
      = run \<lparr>rstate = IN_FIELD, rfields = fs, rfield = [c]\<rparr> True (g @ [])"
    using c lim by (simp add: f run_other parser_defs)
  also have "\<dots> = run \<lparr>rstate = IN_FIELD, rfields = fs, rfield = [c] @ g\<rparr> (True \<or> g \<noteq> []) []"
    using g assms(3) by (intro run_plain) (simp_all add: f)
  finally show ?thesis by (simp add: f parser_defs)
qed

lemma run_fields_unterminated:
  assumes "r \<noteq> []" "\<forall>f\<in>set r. length f \<le> field_limit" "last r \<noteq> []" "\<not> needs_quotes (last r)"
  shows "run \<lparr>rstate = START_FIELD, rfields = fs, rfield = []\<rparr> pending (join_fields r)
     = Inr ([fs @ r], parse_reset)"
  using assms
proof (induction r arbitrary: fs pending rule: join_fields.induct)
  case 1
  then show ?case by simp
next
  case (2 f)
  then show ?case by (simp add: run_last_field join_field_plain)
next
  case (3 f g r)
  have "run \<lparr>rstate = START_FIELD, rfields = fs, rfield = []\<rparr> pending (join_fields (f # g # r))
      = run \<lparr>rstate = START_FIELD, rfields = fs @ [f], rfield = []\<rparr> True (join_fields (g # r))"
    using 3(3) by (simp add: run_field_comma)
  also have "\<dots> = Inr ([(fs @ [f]) @ g # r], parse_reset)"
    using 3(3,4,5) by (intro 3(1)) simp_all
  finally show ?case by simp
qed

lemma csv_reader_unterminated:
  assumes "r \<noteq> []" "\<forall>f\<in>set r. length f \<le> field_limit" "last r \<noteq> []" "\<not> needs_quotes (last r)"
  shows "csv_reader (join_fields r) = Inr [r]"
proof -
  have "r \<noteq> [[]]" using assms(3) by auto
  from join_fields_hd [OF assms(1) this, of "[]"]
  obtain c cs where c: "join_fields r = c # cs" "c \<noteq> 10" "c \<noteq> 13" by auto
  have "run parse_reset False (join_fields r)
      = run \<lparr>rstate = START_FIELD, rfields = [], rfield = []\<rparr> False (join_fields r)"
    unfolding c(1) using c(2,3) by (rule run_start_record)
  also have "\<dots> = Inr ([[] @ r], parse_reset)" using assms by (rule run_fields_unterminated)
  finally show ?thesis by (simp add: csv_reader_run)
qed

lemma run_long_field:
  assumes "\<not> needs_quotes g" "field_limit < length g"
  shows "run \<lparr>rstate = START_FIELD, rfields = fs, rfield = []\<rparr> pending (g @ rest) = Inl CsvError"
proof -
  define a where "a = take field_limit g"
  define b where "b = drop field_limit g"
  have g: "g = a @ b" and la: "length a = field_limit" and "b \<noteq> []"
    using assms(2) by (simp_all add: a_def b_def)
  then obtain d b' where b: "b = d # b'" by (cases b) auto
  have "a \<noteq> []" using la by (auto simp: field_limit_def)
  then obtain c a' where a: "a = c # a'" by (cases a) auto
  from assms(1) have c: "c \<noteq> 44" "c \<noteq> 34" "c \<noteq> 13" "c \<noteq> 10" and a': "\<not> needs_quotes a'"
    and d: "d \<noteq> 44" "d \<noteq> 34" "d \<noteq> 13" "d \<noteq> 10"
    by (simp_all add: g a b needs_quotes_append special_iff)
  have lim: "0 < field_limit" by (simp add: field_limit_def)
  have "run \<lparr>rstate = START_FIELD, rfields = fs, rfield = []\<rparr> pending (g @ rest)
      = run \<lparr>rstate = IN_FIELD, rfields = fs, rfield = [c]\<rparr> True (a' @ d # b' @ rest)"
    using c lim by (simp add: g a b run_other parser_defs)
  also have "\<dots> = run \<lparr>rstate = IN_FIELD, rfields = fs, rfield = [c] @ a'\<rparr> (True \<or> a' \<noteq> [])
      (d # b' @ rest)"
    using a' la by (intro run_plain) (simp_all add: a)
  also have "\<dots> = Inl CsvError"
    using d la by (simp add: run_other parser_defs a)
  finally show ?thesis .
qed

lemma run_fields_long:
  assumes "\<forall>f\<in>set r. length f \<le> field_limit" "\<not> needs_quotes g" "field_limit < length g"
  shows "run \<lparr>rstate = START_FIELD, rfields = fs, rfield = []\<rparr> pending
           (join_fields (r @ [g]) @ rest) = Inl CsvError"
  using assms(1)
proof (induction r arbitrary: fs pending)
  case Nil
  show ?case using run_long_field [OF assms(2,3)] assms(2) by (simp add: join_field_plain)
next
  case (Cons f r)
  obtain x xs where x: "r @ [g] = x # xs" by (cases "r @ [g]") auto
  have "run \<lparr>rstate = START_FIELD, rfields = fs, rfield = []\<rparr> pending
           (join_fields ((f # r) @ [g]) @ rest)
      = run \<lparr>rstate = START_FIELD, rfields = fs @ [f], rfield = []\<rparr> True
           (join_fields (r @ [g]) @ rest)"
    using Cons.prems by (simp add: x run_field_comma)
  also have "\<dots> = Inl CsvError" using Cons.prems by (intro Cons.IH) simp
  finally show ?case .
qed

lemma writerow_encodable:
  assumes "field_texts vs = Inr ts" "\<forall>f\<in>set ts. list_all encodable f"
  shows "writerow vs = Inr (utf8_bytes (csv_line ts))"
  using csv_line_encodable [OF assms(2)] assms(1) by (simp add: writerow_def utf8_encode_def)

lemma csv_reader_long_rest:
  assumes "\<forall>r\<in>set rows. \<forall>f\<in>set r. length f \<le> field_limit"
    and "\<forall>f\<in>set r. length f \<le> field_limit" "\<not> needs_quotes g" "field_limit < length g"
  shows "csv_reader (csv_text rows @ csv_line (r @ [g]) @ rest) = Inl CsvError"
proof -
  have g: "g \<noteq> []" using assms(4) by auto
  then have 1: "r @ [g] \<noteq> []" and 2: "r @ [g] \<noteq> [[]]" by auto
  from join_fields_hd [OF 1 2, of "13 # 10 # rest"]
  obtain c cs where c: "join_fields (r @ [g]) @ 13 # 10 # rest = c # cs" "c \<noteq> 10" "c \<noteq> 13"
    by auto
  have "run parse_reset False (join_fields (r @ [g]) @ 13 # 10 # rest)
      = run \<lparr>rstate = START_FIELD, rfields = [], rfield = []\<rparr> False
          (join_fields (r @ [g]) @ 13 # 10 # rest)"
    unfolding c(1) using c(2,3) by (rule run_start_record)
  also have "\<dots> = Inl CsvError" using assms(2-4) by (rule run_fields_long)
  finally have "run parse_reset False (csv_line (r @ [g]) @ rest) = Inl CsvError"
    using g by (simp add: csv_line_def)
  then show ?thesis
    using run_csv_text [OF assms(1), of "csv_line (r @ [g]) @ rest"] by (simp add: csv_reader_run)
qed

section \<open>Rows that cannot be stored\<close>

lemma writerow_PStr:
  "\<forall>f\<in>set r. writable f \<Longrightarrow> writerow (map PStr r) = Inr (utf8_bytes (csv_line r))"
  using writerow_storable [of "map PStr r"] by (simp add: storable_PStr field_text_PStr)

lemma not_huge: "\<not> (10::int) ^ max_str_digits \<le> 700"
  using example_amounts(1) by simp

lemma rent_texts:
  "field_texts [PStr (pystr ''2024-05-03''), PStr expense_label, PInt 700, PStr s]
     = Inr [pystr ''2024-05-03'', expense_label, pystr ''700'', s]"
  by (simp add: not_huge str_of_int_700)

lemma long_text_facts:
  "list_all encodable long_text" "\<not> needs_quotes long_text" "field_limit < length long_text"
  by (simp_all add: long_text_def list_all_iff needs_quotes_def list_ex_iff encodable_def)

lemma rent_prefix_facts:
  "\<forall>f\<in>set [pystr ''2024-05-03'', expense_label, pystr ''700'']. writable f"
  by (simp add: example_texts_writable)

lemma writerow_surrogate: "writerow surrogate_data = Inl UnicodeEncodeError"
  by (simp add: writerow_def surrogate_data_def not_huge str_of_int_700 utf8_encode_def
      csv_line_def join_field_def needs_quotes_def surrogate_text_def encodable_def pystr_def
      expense_label_def)

lemma writerow_huge: "writerow huge_data = Inl ValueError"
  by (simp add: writerow_def huge_data_def)

lemma writerow_long:
  "writerow long_data
     = Inr (utf8_bytes (csv_line ([pystr ''2024-05-03'', expense_label, pystr ''700''] @ [long_text])))"
proof -
  have "\<forall>f\<in>set [pystr ''2024-05-03'', expense_label, pystr ''700'', long_text]. list_all encodable f"
    using example_texts_writable long_text_facts(1) by (simp add: writable_def)
  from writerow_encodable [OF rent_texts this] show ?thesis by (simp add: long_data_def)
qed

lemma store_of_update: "(store_of rows)(filename ledger \<mapsto> bs) = Map.empty(filename ledger \<mapsto> bs)"
  by (simp add: store_of_def)

lemma rent_transaction_sel:
  "date rent_transaction = pystr ''2024-05-03''" "category rent_transaction = expense_label"
  "amount rent_transaction = 700" "description rent_transaction = pystr ''rent''"
  by (simp_all add: rent_transaction_def)

lemma load_after_long:
  assumes "\<forall>r\<in>set rows. \<forall>f\<in>set r. writable f" "\<forall>r\<in>set later. \<forall>f\<in>set r. writable f"
    and "fs (filename self) = Some (utf8_bytes (csv_text rows)
          @ utf8_bytes (csv_line ([pystr ''2024-05-03'', expense_label, pystr ''700''] @ [long_text]))
          @ utf8_bytes (csv_text later))"
  shows "load_transactions self fs = Inl CsvError"
proof -
  let ?line = "csv_line ([pystr ''2024-05-03'', expense_label, pystr ''700''] @ [long_text])"
  have "\<forall>f\<in>set ([pystr ''2024-05-03'', expense_label, pystr ''700''] @ [long_text]).
      list_all encodable f"
    using example_texts_writable long_text_facts(1) by (simp add: writable_def)
  then have "list_all encodable ?line" by (rule csv_line_encodable)
  moreover have "list_all encodable (csv_text rows)" "list_all encodable (csv_text later)"
    using assms(1,2) by (auto intro!: csv_text_encodable simp: writable_def)
  ultimately have "list_all encodable (csv_text rows @ ?line @ csv_text later)" by simp
  then have "utf8_decode (utf8_bytes (csv_text rows @ ?line @ csv_text later))
      = Inr (csv_text rows @ ?line @ csv_text later)"
    by (rule utf8_decode_bytes)
  moreover have "csv_reader (csv_text rows @ ?line @ csv_text later) = Inl CsvError"
    using assms(1) rent_prefix_facts long_text_facts(2,3)
    by (intro csv_reader_long_rest) (simp_all add: writable_def)
  ultimately show ?thesis
    using assms(3) by (simp add: load_transactions_def utf8_bytes_append)
qed

text \<open>
  C5 as stated fails on a store whose last line has no line ending: the bytes of the
  new row follow the last record, and the two are read as one record of seven fields.
  It fails as well for a description that cannot be encoded and for an amount of 4301
  digits, where \<open>add_transaction\<close> raises and adds nothing, and for a description
  longer than a field may be, after which \<open>load_transactions\<close> raises.
\<close>

theorem add_after_unterminated_line_counterexample:
  "load_transactions ledger unterminated_store = Inr [salary_row] \<and>
   fst (add_transaction ledger rent_transaction unterminated_store) = Inr () \<and>
   load_transactions ledger (snd (add_transaction ledger rent_transaction unterminated_store))
     = Inr [[pystr ''2024-05-01'', income_label, pystr ''1000'', pystr ''salary2024-05-03'',
             expense_label, pystr ''700'', pystr ''rent'']] \<and>
   add_transaction ledger (rent_transaction\<lparr>description := surrogate_text\<rparr>)
       (store_of [salary_row])
     = (Inl UnicodeEncodeError, store_of [salary_row]) \<and>
   add_transaction ledger (rent_transaction\<lparr>amount := 10 ^ max_str_digits\<rparr>)
       (store_of [salary_row])
     = (Inl ValueError, store_of [salary_row]) \<and>
   fst (add_transaction ledger (rent_transaction\<lparr>description := long_text\<rparr>)
       (store_of [salary_row])) = Inr () \<and>
   load_transactions ledger
     (snd (add_transaction ledger (rent_transaction\<lparr>description := long_text\<rparr>)
       (store_of [salary_row]))) = Inl CsvError"
proof -
  let ?glued = "[pystr ''2024-05-01'', income_label, pystr ''1000'', pystr ''salary2024-05-03'',
             expense_label, pystr ''700'', pystr ''rent'']"
  have enc: "list_all encodable (join_fields salary_row)"
    using example_rows_writable(1) by (intro join_fields_encodable) (simp add: writable_def)
  have "csv_reader (join_fields salary_row) = Inr [salary_row]"
    by (rule csv_reader_unterminated)
       (simp_all add: salary_row_def pystr_def income_label_def needs_quotes_def field_limit_def)
  then have 1: "load_transactions ledger unterminated_store = Inr [salary_row]"
    by (simp add: load_transactions_def unterminated_store_def utf8_decode_bytes [OF enc])
  have a: "add_transaction ledger rent_transaction unterminated_store
      = (Inr (), Map.empty(filename ledger \<mapsto>
           utf8_bytes (join_fields salary_row) @ utf8_bytes (csv_line rent_row)))"
    using add_transaction_storable [of rent_transaction ledger unterminated_store]
    by (simp add: rent_transaction_sel example_texts_writable example_amounts str_of_int_700
        rent_row_def unterminated_store_def)
  have glue: "join_fields salary_row @ csv_line rent_row = csv_text [?glued]"
    by (simp add: csv_text_def csv_line_def join_field_def needs_quotes_def salary_row_def
        rent_row_def pystr_def income_label_def expense_label_def)
  have "\<forall>r\<in>set [?glued]. \<forall>f\<in>set r. writable f"
    by (simp add: example_texts_writable)
       (simp add: writable_def encodable_def field_limit_def pystr_def)
  then have 3: "load_transactions ledger
      (snd (add_transaction ledger rent_transaction unterminated_store)) = Inr [?glued]"
    by (rule load_csv_text) (simp add: a utf8_bytes_append [symmetric] glue)
  have 4: "add_transaction ledger (rent_transaction\<lparr>description := surrogate_text\<rparr>)
       (store_of [salary_row]) = (Inl UnicodeEncodeError, store_of [salary_row])"
    using writerow_surrogate
    by (simp add: add_transaction_def rent_transaction_def surrogate_data_def store_of_def)
  have 5: "add_transaction ledger (rent_transaction\<lparr>amount := 10 ^ max_str_digits\<rparr>)
       (store_of [salary_row]) = (Inl ValueError, store_of [salary_row])"
    using writerow_huge
    by (simp add: add_transaction_def rent_transaction_def huge_data_def store_of_def)
  have 6: "add_transaction ledger (rent_transaction\<lparr>description := long_text\<rparr>)
       (store_of [salary_row])
      = (Inr (), Map.empty(filename ledger \<mapsto> utf8_bytes (csv_text [salary_row])
          @ utf8_bytes (csv_line ([pystr ''2024-05-03'', expense_label, pystr ''700''] @ [long_text]))
          @ utf8_bytes (csv_text [])))"
    using writerow_long
    by (simp add: add_transaction_def rent_transaction_def long_data_def store_of_def
        csv_text_def utf8_bytes_def)
  have 7: "load_transactions ledger
     (snd (add_transaction ledger (rent_transaction\<lparr>description := long_text\<rparr>)
       (store_of [salary_row]))) = Inl CsvError"
    unfolding 6 by (rule load_after_long [where rows = "[salary_row]" and later = "[]"])
      (simp_all add: example_rows_writable)
  show ?thesis using 1 3 4 5 7 by (simp add: a 6)
qed

section \<open>Editing a transaction\<close>

lemma list_setitem_in_range:
  assumes "1 \<le> p" "p \<le> int (length xs)"
  shows "list_setitem xs (p - 1) v = Inr (xs[nat (p - 1) := v])"
  using assms by (simp add: list_setitem_def Let_def)

lemma list_setitem_past_end: "list_setitem xs (int (length xs)) v = Inl IndexError"
  by (simp add: list_setitem_def Let_def)

lemma list_setitem_minus_one_empty: "list_setitem [] (- 1) v = Inl IndexError"
  by (simp add: list_setitem_def Let_def)

lemma list_setitem_minus_one:
  "xs \<noteq> [] \<Longrightarrow> list_setitem xs (- 1) v = Inr (xs[length xs - 1 := v])"
  by (cases xs) (simp_all add: list_setitem_def Let_def nat_diff_distrib)

lemma edit_at:
  assumes l: "load_transactions self fs = Inr rows" and n: "list_all storable new"
    and s: "list_setitem (map (map PStr) rows) (p - 1) new = Inr ((map (map PStr) rows)[j := new])"
  shows "edit_transaction self p new fs
       = (Inr (), fs(filename self \<mapsto> utf8_bytes (csv_text (rows[j := map field_text new]))))"
    and "load_transactions self (snd (edit_transaction self p new fs))
       = Inr (rows[j := map field_text new])"
proof -
  let ?rs = "(map (map PStr) rows)[j := new]"
  have st: "\<forall>r\<in>set ?rs. list_all storable r"
  proof
    fix r assume "r \<in> set ?rs"
    then have "r = new \<or> r \<in> set (map (map PStr) rows)"
      using set_update_subset_insert [of "map (map PStr) rows" j new] by auto
    then show "list_all storable r" using n load_writable [OF l] by (auto simp: storable_PStr)
  qed
  have m: "map (map field_text) ?rs = rows[j := map field_text new]"
    unfolding map_update map_field_text_PStr ..
  have e: "edit_transaction self p new fs = save_transactions self ?rs fs"
    by (simp add: edit_transaction_def l s)
  show "edit_transaction self p new fs
       = (Inr (), fs(filename self \<mapsto> utf8_bytes (csv_text (rows[j := map field_text new]))))"
    unfolding e save_storable [OF st] m ..
  show "load_transactions self (snd (edit_transaction self p new fs))
       = Inr (rows[j := map field_text new])"
    unfolding e load_after_save [OF st] m ..
qed

lemma all_PStr_field_text:
  "\<forall>v\<in>set new. \<exists>s. v = PStr s \<Longrightarrow> map (PStr \<circ> field_text) new = new"
  by (induction new) auto

lemma store_of_single: "store_of [r] = Map.empty(filename ledger \<mapsto> utf8_bytes (csv_line r))"
  by (simp add: store_of_def csv_text_def)

lemma rent_data_storable: "list_all storable rent_data"
  by (simp add: rent_data_def example_texts_writable example_amounts)

lemma rent_data_texts: "map field_text rent_data = rent_row"
  by (simp add: rent_data_def rent_row_def str_of_int_700)

text \<open>
  C4 (as amended). On a store of N records, \<open>edit_transaction\<close> with a position \<open>p\<close> from
  1 to N and new data that can be stored returns normally, and \<open>load_transactions\<close>
  then gives N records: at position \<open>p\<close> the new data with every field as the text that
  \<open>str()\<close> gives for it, and every other record as it was and where it was. The record
  read back equals the new data itself when all its fields are strings.
\<close>

theorem edit_then_load:
  assumes "load_transactions self fs = Inr rows" "1 \<le> p" "p \<le> int (length rows)"
    and "list_all storable new"
  shows "fst (edit_transaction self p new fs) = Inr ()
     \<and> load_transactions self (snd (edit_transaction self p new fs))
          = Inr (rows[nat (p - 1) := map field_text new])
     \<and> length (rows[nat (p - 1) := map field_text new]) = length rows
     \<and> rows[nat (p - 1) := map field_text new] ! nat (p - 1) = map field_text new
     \<and> (\<forall>i < length rows. i \<noteq> nat (p - 1) \<longrightarrow>
          rows[nat (p - 1) := map field_text new] ! i = rows ! i)
     \<and> ((\<forall>v\<in>set new. \<exists>s. v = PStr s) \<longrightarrow> map PStr (map field_text new) = new)"
proof -
  have i: "nat (p - 1) < length rows" using assms(2,3) by linarith
  have "list_setitem (map (map PStr) rows) (p - 1) new
      = Inr ((map (map PStr) rows)[nat (p - 1) := new])"
    using assms(2,3) by (intro list_setitem_in_range) simp_all
  from edit_at [OF assms(1,4) this] i show ?thesis
    by (simp add: all_PStr_field_text)
qed

theorem edit_then_load_witness:
  "load_transactions ledger (store_of [salary_row, food_row]) = Inr [salary_row, food_row] \<and>
   list_all storable rent_data \<and>
   load_transactions ledger (snd (edit_transaction ledger 2 rent_data (store_of [salary_row, food_row])))
     = Inr [salary_row, rent_row] \<and>
   load_transactions ledger
     (snd (edit_transaction ledger 1 (map PStr food_row) (store_of [salary_row, food_row])))
     = Inr [food_row, food_row] \<and>
   map PStr (map field_text (map PStr food_row)) = map PStr food_row"
  using edit_then_load [of ledger "store_of [salary_row, food_row]" "[salary_row, food_row]" 2
      rent_data]
    edit_then_load [of ledger "store_of [salary_row, food_row]" "[salary_row, food_row]" 1
      "map PStr food_row"]
  by (simp add: load_examples rent_data_storable rent_data_texts storable_PStr
      example_rows_writable field_text_PStr)

lemma edit_failing:
  assumes "writerow new = Inl e"
  shows "edit_transaction ledger 2 new (store_of [salary_row, food_row, bonus_row])
     = (Inl e, store_of [salary_row])"
  using assms
  by (simp add: edit_transaction_def load_examples list_setitem_def Let_def
      save_transactions_def writerow_PStr example_rows_writable store_of_update store_of_single)

text \<open>
  C4 as stated, with the record read back equal to the new data, fails for the data that
  \<open>main.py\<close> and \<open>test.py\<close> pass, whose amount is an \<open>int\<close>: the row \<open>['2024-05-03',
  expense, '700', 'rent']\<close> that is read back is not the list with the integer 700. It
  fails as well for new data that cannot be written, a text with a lone surrogate or an
  amount of 4301 digits: the edit raises after the file has been emptied and the rows
  before the position written, and the rows from the position on are lost. And for a
  text longer than a field may be the edit returns normally and \<open>load_transactions\<close>
  then raises.
\<close>

theorem edit_keeps_numbers_as_text_counterexample:
  "load_transactions ledger (snd (edit_transaction ledger 2 rent_data (store_of [salary_row, food_row])))
     = Inr [salary_row, rent_row] \<and>
   map PStr rent_row \<noteq> rent_data \<and>
   edit_transaction ledger 2 surrogate_data (store_of [salary_row, food_row, bonus_row])
     = (Inl UnicodeEncodeError, store_of [salary_row]) \<and>
   edit_transaction ledger 2 huge_data (store_of [salary_row, food_row, bonus_row])
     = (Inl ValueError, store_of [salary_row]) \<and>
   fst (edit_transaction ledger 2 long_data (store_of [salary_row, food_row, bonus_row])) = Inr () \<and>
   load_transactions ledger
     (snd (edit_transaction ledger 2 long_data (store_of [salary_row, food_row, bonus_row])))
     = Inl CsvError"
proof -
  have "list_setitem (map (map PStr) [salary_row, food_row]) (2 - 1) rent_data
      = Inr ((map (map PStr) [salary_row, food_row])[1 := rent_data])"
    by (simp add: list_setitem_def Let_def)
  from edit_at(2) [OF load_examples(3) rent_data_storable this]
  have 1: "load_transactions ledger
      (snd (edit_transaction ledger 2 rent_data (store_of [salary_row, food_row])))
     = Inr [salary_row, rent_row]"
    by (simp add: rent_data_texts)
  have 2: "map PStr rent_row \<noteq> rent_data" by (simp add: rent_row_def rent_data_def)
  have 5: "edit_transaction ledger 2 long_data (store_of [salary_row, food_row, bonus_row])
      = (Inr (), Map.empty(filename ledger \<mapsto> utf8_bytes (csv_text [salary_row])
          @ utf8_bytes (csv_line ([pystr ''2024-05-03'', expense_label, pystr ''700''] @ [long_text]))
          @ utf8_bytes (csv_text [bonus_row])))"
    by (simp add: edit_transaction_def load_examples list_setitem_def Let_def
      save_transactions_def writerow_PStr writerow_long example_rows_writable store_of_update
      csv_text_def)
  have 6: "load_transactions ledger
     (snd (edit_transaction ledger 2 long_data (store_of [salary_row, food_row, bonus_row])))
     = Inl CsvError"
    unfolding 5 by (rule load_after_long [where rows = "[salary_row]" and later = "[bonus_row]"])
      (simp_all add: example_rows_writable)
  show ?thesis
    using 1 2 6 edit_failing [OF writerow_surrogate] edit_failing [OF writerow_huge]
    by (simp add: 5)
qed

text \<open>
  C1 (as amended). On a store of N records, \<open>edit_transaction\<close> with position N + 1
  raises \<open>IndexError\<close>; it is not caught, \<open>save_transactions\<close> is not reached and the
  files are what they were. With position 0 the same holds on an empty store, and only
  there: on a store that is not empty position 0 raises no \<open>IndexError\<close>, it is the
  last record, which new data that can be stored replaces.
\<close>

theorem edit_out_of_range:
  assumes "load_transactions self fs = Inr rows"
  shows "edit_transaction self (int (length rows) + 1) new fs = (Inl IndexError, fs)
     \<and> (rows = [] \<longrightarrow> edit_transaction self 0 new fs = (Inl IndexError, fs))
     \<and> (rows \<noteq> [] \<longrightarrow> fst (edit_transaction self 0 new fs) \<noteq> Inl IndexError)
     \<and> (rows \<noteq> [] \<and> list_all storable new \<longrightarrow>
          fst (edit_transaction self 0 new fs) = Inr () \<and>
          load_transactions self (snd (edit_transaction self 0 new fs))
            = Inr (rows[length rows - 1 := map field_text new]))"
proof -
  have "list_setitem (map (map PStr) rows) (int (length rows)) new = Inl IndexError"
    using list_setitem_past_end [of "map (map PStr) rows" new] by simp
  then have 1: "edit_transaction self (int (length rows) + 1) new fs = (Inl IndexError, fs)"
    using assms by (simp add: edit_transaction_def)
  have 2: "rows = [] \<longrightarrow> edit_transaction self 0 new fs = (Inl IndexError, fs)"
    using assms by (simp add: edit_transaction_def list_setitem_minus_one_empty)
  have s: "list_setitem (map (map PStr) rows) (0 - 1) new
      = Inr ((map (map PStr) rows)[length rows - 1 := new])" if "rows \<noteq> []"
    using list_setitem_minus_one [of "map (map PStr) rows" new] that by simp
  have 3: "rows \<noteq> [] \<longrightarrow> fst (edit_transaction self 0 new fs) \<noteq> Inl IndexError"
  proof
    assume "rows \<noteq> []"
    from s [OF this] have "edit_transaction self 0 new fs
        = save_transactions self ((map (map PStr) rows)[length rows - 1 := new]) fs"
      using assms by (simp add: edit_transaction_def)
    then show "fst (edit_transaction self 0 new fs) \<noteq> Inl IndexError"
      using writerows_error [of "(map (map PStr) rows)[length rows - 1 := new]" "[]" IndexError]
      by (auto simp: save_transactions_def split: prod.splits)
  qed
  have 4: "rows \<noteq> [] \<and> list_all storable new \<longrightarrow>
          fst (edit_transaction self 0 new fs) = Inr () \<and>
          load_transactions self (snd (edit_transaction self 0 new fs))
            = Inr (rows[length rows - 1 := map field_text new])"
  proof
    assume a: "rows \<noteq> [] \<and> list_all storable new"
    then have n: "list_all storable new" and r: "rows \<noteq> []" by simp_all
    from edit_at [OF assms n s [OF r]] show "fst (edit_transaction self 0 new fs) = Inr () \<and>
          load_transactions self (snd (edit_transaction self 0 new fs))
            = Inr (rows[length rows - 1 := map field_text new])"
      by simp
  qed
  from 1 2 3 4 show ?thesis by blast
qed

theorem edit_out_of_range_witness:
  "load_transactions ledger (store_of [salary_row, food_row]) = Inr [salary_row, food_row] \<and>
   edit_transaction ledger 3 rent_data (store_of [salary_row, food_row])
     = (Inl IndexError, store_of [salary_row, food_row]) \<and>
   load_transactions ledger (store_of []) = Inr [] \<and>
   edit_transaction ledger 0 rent_data (store_of []) = (Inl IndexError, store_of []) \<and>
   fst (edit_transaction ledger 0 rent_data (store_of [salary_row, food_row])) = Inr () \<and>
   load_transactions ledger (snd (edit_transaction ledger 0 rent_data (store_of [salary_row, food_row])))
     = Inr [salary_row, rent_row]"
  using edit_out_of_range [of ledger "store_of [salary_row, food_row]" "[salary_row, food_row]"
      rent_data]
    edit_out_of_range [of ledger "store_of []" "[]" rent_data]
  by (simp add: load_examples rent_data_storable rent_data_texts)

text \<open>
  C1 as stated fails at position 0 on a store that is not empty: the index is \<open>-1\<close>,
  which for a Python list is the last element, so the call returns normally and the
  last of the two rows is replaced.
\<close>

theorem edit_position_zero_counterexample:
  "edit_transaction ledger 0 rent_data (store_of [salary_row, food_row])
     = (Inr (), store_of [salary_row, rent_row])"
proof -
  have "list_setitem (map (map PStr) [salary_row, food_row]) (0 - 1) rent_data
      = Inr ((map (map PStr) [salary_row, food_row])[1 := rent_data])"
    by (simp add: list_setitem_def Let_def)
  from edit_at(1) [OF load_examples(3) rent_data_storable this] show ?thesis
    by (simp add: rent_data_texts store_of_def)
qed

section \<open>Searching\<close>

lemma differs_other: "key \<noteq> name \<Longrightarrow> differs key name i t v = Inr False"
  by (simp add: differs_def)

lemma criteria_match_skip:
  assumes "k \<noteq> pystr ''date''" "k \<noteq> pystr ''category''" "k \<noteq> pystr ''amount''"
  shows "criteria_match ((k, v) # rest) t = criteria_match rest t"
  using assms by (simp add: differs_other)

lemma criteria_match_remove:
  assumes "k \<noteq> pystr ''date''" "k \<noteq> pystr ''category''" "k \<noteq> pystr ''amount''"
  shows "criteria_match (c1 @ (k, v) # c2) t = criteria_match (c1 @ c2) t"
proof (induction c1)
  case Nil
  show ?case using criteria_match_skip [OF assms] by simp
next
  case (Cons kv c1)
  obtain k' v' where kv: "kv = (k', v')" by (cases kv)
  show ?case unfolding kv using Cons by (simp split: sum.splits bool.splits)
qed

lemma search_loop_cong:
  assumes "\<And>t. criteria_match c t = criteria_match c' t"
  shows "search_loop c result rows = search_loop c' result rows"
  by (induction rows arbitrary: result) (simp_all add: assms split: sum.splits)

lemma criteria_match_unrecognised:
  assumes "\<forall>kv\<in>set c. fst kv \<notin> {pystr ''date'', pystr ''category'', pystr ''amount''}"
  shows "criteria_match c t = Inr True"
  using assms
proof (induction c)
  case Nil
  show ?case by simp
next
  case (Cons kv c)
  obtain k v where kv: "kv = (k, v)" by (cases kv)
  from Cons.prems have "k \<noteq> pystr ''date''" "k \<noteq> pystr ''category''" "k \<noteq> pystr ''amount''"
    by (auto simp: kv)
  then have "criteria_match ((k, v) # c) t = criteria_match c t" by (rule criteria_match_skip)
  with Cons show ?case by (simp add: kv)
qed

lemma search_loop_filter:
  assumes "\<And>t. t \<in> set rows \<Longrightarrow> criteria_match c t = Inr (P t)"
  shows "search_loop c result rows = Inr (result @ filter P rows)"
  using assms by (induction rows arbitrary: result) simp_all

text \<open>
  C3. A key of the criteria other than \<open>date\<close>, \<open>category\<close> and \<open>amount\<close> adds no
  condition: the search gives the same result, errors included, as the search without
  that key, and criteria with no other keys than such give every record of the store.
\<close>

theorem search_ignores_unrecognised_keys:
  assumes "k \<notin> {pystr ''date'', pystr ''category'', pystr ''amount''}"
    and "\<forall>kv\<in>set only. fst kv \<notin> {pystr ''date'', pystr ''category'', pystr ''amount''}"
    and "load_transactions self fs = Inr rows"
  shows "search_transactions self (c1 @ (k, v) # c2) fs = search_transactions self (c1 @ c2) fs
     \<and> search_transactions self only fs = Inr rows"
proof -
  have k: "k \<noteq> pystr ''date''" "k \<noteq> pystr ''category''" "k \<noteq> pystr ''amount''"
    using assms(1) by auto
  have "search_loop (c1 @ (k, v) # c2) [] rows = search_loop (c1 @ c2) [] rows" for rows
    by (rule search_loop_cong) (rule criteria_match_remove [OF k])
  moreover have "search_loop only [] rows = Inr ([] @ filter (\<lambda>t. True) rows)"
    by (rule search_loop_filter) (rule criteria_match_unrecognised [OF assms(2)])
  ultimately show ?thesis
    using assms(3) by (simp add: search_transactions_def)
qed

theorem search_ignores_unrecognised_keys_witness:
  "search_transactions ledger
      [(pystr ''category'', PStr income_label), (pystr ''description'', PStr (pystr ''food''))]
      (store_of [salary_row, food_row])
    = search_transactions ledger [(pystr ''category'', PStr income_label)]
        (store_of [salary_row, food_row]) \<and>
   search_transactions ledger [(pystr ''description'', PStr (pystr ''food''))]
      (store_of [salary_row, food_row]) = Inr [salary_row, food_row]"
  using search_ignores_unrecognised_keys [where k = "pystr ''description''"
      and only = "[(pystr ''description'', PStr (pystr ''food''))]"
      and fs = "store_of [salary_row, food_row]" and self = ledger
      and rows = "[salary_row, food_row]" and ?c1.0 = "[(pystr ''category'', PStr income_label)]"
      and v = "PStr (pystr ''food'')" and ?c2.0 = "[]"]
  by (simp add: load_examples pystr_def)

lemma criteria_match_single:
  assumes "(key, i) \<in> {(pystr ''date'', 0), (pystr ''category'', 1), (pystr ''amount'', 2)}"
    and "nat i < length t"
  shows "criteria_match [(key, v)] t = Inr (PStr (t ! nat i) = v)"
proof -
  have names: "pystr ''date'' \<noteq> pystr ''category''" "pystr ''date'' \<noteq> pystr ''amount''"
    "pystr ''category'' \<noteq> pystr ''amount''"
    by (simp_all add: pystr_def)
  from assms(1) consider "key = pystr ''date''" "i = 0" | "key = pystr ''category''" "i = 1"
    | "key = pystr ''amount''" "i = 2" by auto
  then show ?thesis
  proof cases
    case 1
    then show ?thesis using assms(2) names by (auto simp: differs_def list_getitem_def split: bool.splits)
  next
    case 2
    then show ?thesis using assms(2) names by (auto simp: differs_def list_getitem_def split: bool.splits)
  next
    case 3
    then show ?thesis using assms(2) names by (auto simp: differs_def list_getitem_def split: bool.splits)
  qed
qed

text \<open>
  C7 (as amended). With one criterion on \<open>date\<close>, \<open>category\<close> or \<open>amount\<close> (fields 0, 1
  and 2), on a store whose records all have that field, \<open>search_transactions\<close> returns
  the records whose field is the string searched for, in the order of the store; when
  there is none, it returns the empty list.
\<close>

theorem search_single_field:
  assumes "load_transactions self fs = Inr rows"
    and "(key, i) \<in> {(pystr ''date'', 0), (pystr ''category'', 1), (pystr ''amount'', 2)}"
    and "\<forall>t\<in>set rows. nat i < length t"
  shows "search_transactions self [(key, v)] fs = Inr (filter (\<lambda>t. PStr (t ! nat i) = v) rows)
     \<and> ((\<forall>t\<in>set rows. PStr (t ! nat i) \<noteq> v) \<longrightarrow> search_transactions self [(key, v)] fs = Inr [])"
proof -
  have "search_loop [(key, v)] [] rows = Inr ([] @ filter (\<lambda>t. PStr (t ! nat i) = v) rows)"
    using assms(3) by (intro search_loop_filter criteria_match_single [OF assms(2)]) simp
  then have 1: "search_transactions self [(key, v)] fs
      = Inr (filter (\<lambda>t. PStr (t ! nat i) = v) rows)"
    using assms(1) by (simp add: search_transactions_def)
  have "(\<forall>t\<in>set rows. PStr (t ! nat i) \<noteq> v) \<longrightarrow> filter (\<lambda>t. PStr (t ! nat i) = v) rows = []"
    by (simp add: filter_empty_conv)
  with 1 show ?thesis by simp
qed

theorem search_single_field_witness:
  "search_transactions ledger [(pystr ''category'', PStr income_label)]
      (store_of [salary_row, food_row, bonus_row]) = Inr [salary_row, bonus_row] \<and>
   search_transactions ledger [(pystr ''date'', PStr (pystr ''1999-01-01''))]
      (store_of [salary_row, food_row, bonus_row]) = Inr []"
  using search_single_field [where fs = "store_of [salary_row, food_row, bonus_row]"
      and self = ledger and rows = "[salary_row, food_row, bonus_row]"
      and key = "pystr ''category''" and i = 1 and v = "PStr income_label"]
    search_single_field [where fs = "store_of [salary_row, food_row, bonus_row]"
      and self = ledger and rows = "[salary_row, food_row, bonus_row]"
      and key = "pystr ''date''" and i = 0 and v = "PStr (pystr ''1999-01-01'')"]
  unfolding load_examples
  by (simp add: salary_row_def food_row_def bonus_row_def income_label_def
      expense_label_def pystr_def)

text \<open>
  C7 as stated, for every store, fails on a store with a record that lacks the field
  searched for: a blank line of the file is read as a record of no fields, and the
  search by date raises \<open>IndexError\<close> on it instead of returning the matching records.
\<close>

theorem search_short_row_counterexample:
  "load_transactions ledger (store_of [salary_row, []]) = Inr [salary_row, []] \<and>
   search_transactions ledger [(pystr ''date'', PStr (pystr ''2024-05-01''))]
      (store_of [salary_row, []]) = Inl IndexError"
  unfolding search_transactions_def load_examples
  by (simp add: salary_row_def differs_def list_getitem_def Let_def pystr_def)

section \<open>Floating-point sums of integers\<close>

lemma round_half_even_of_int: "round_half_even (of_int m) = m"
  by (simp add: round_half_even_def)

lemma pow2_pos: "0 < pow2 e"
  by (simp add: pow2_def)

lemma round_double_minus: "round_double (- x) = fneg (round_double x)"
  by (cases "x = 0"; cases "x < 0") (auto simp: round_double_def Let_def)

lemma ilog2_of_int_bound:
  assumes "0 < n" "n \<le> 2 ^ 53"
  shows "ilog2 (of_int n) \<le> 53" and "ilog2 (of_int n) = 53 \<Longrightarrow> n = 2 ^ 53"
proof -
  define k where "k = bitlen n - 1"
  have b1: "bitlen 1 = 1" by (subst compute_bitlen) simp
  have k0: "0 \<le> k" using assms(1) by (simp add: k_def bitlen_alt_def)
  have low: "2 ^ nat k \<le> n" using bitlen_bounds [OF assms(1)] by (simp add: k_def)
  then have "(2::int) ^ nat k \<le> 2 ^ 53" using assms(2) by linarith
  then have "nat k \<le> 53" by (rule power_le_imp_le_exp [rotated]) simp
  then have k53: "k \<le> 53" by linarith
  have p: "pow2 k = of_int (2 ^ nat k)" using k0 by (simp add: pow2_def)
  have "pow2 k \<le> of_int n" unfolding p using low by (simp only: of_int_le_iff)
  then have il: "ilog2 (of_int n) = k"
    by (simp add: ilog2_def b1 k_def Let_def)
  show "ilog2 (of_int n) \<le> 53" using il k53 by simp
  show "n = 2 ^ 53" if "ilog2 (of_int n) = 53"
  proof -
    have "k = 53" using il that by simp
    then have "(2::int) ^ 53 \<le> n" using low by simp
    with assms(2) show ?thesis by simp
  qed
qed

lemma round_double_pos_int_exact:
  assumes "0 < n" "n \<le> 2 ^ 53"
  shows "round_double (of_int n) = Fin (of_int n)"
proof -
  define x :: rat where "x = of_int n"
  define e where "e = max (ilog2 x - 52) (- 1074)"
  have xpos: "0 < x" using assms(1) by (simp add: x_def)
  have "\<exists>m. x / pow2 e = of_int m"
  proof (cases "e \<le> 0")
    case True
    then have "x / pow2 e = of_int (n * 2 ^ nat (- e))"
      by (simp add: pow2_def x_def)
    then show ?thesis by blast
  next
    case False
    have "ilog2 x \<le> 53" unfolding x_def by (rule ilog2_of_int_bound [OF assms])
    with False have "ilog2 x = 53" "e = 1" by (auto simp: e_def)
    then have "n = 2 ^ 53" unfolding x_def using ilog2_of_int_bound(2) [OF assms] by simp
    then have "x / pow2 e = of_int (2 ^ 52)" using \<open>e = 1\<close> by (simp add: x_def pow2_def)
    then show ?thesis by blast
  qed
  then obtain m where m: "x / pow2 e = of_int m" by blast
  have "of_int (round_half_even (x / pow2 e)) * pow2 e = x / pow2 e * pow2 e"
    by (simp add: m round_half_even_of_int)
  also have "\<dots> = x" using pow2_pos [of e] by simp
  finally have y: "of_int (round_half_even (x / pow2 e)) * pow2 e = x" .
  have "x \<le> of_int (2 ^ 53)" unfolding x_def using assms(2) by (simp only: of_int_le_iff)
  also have "\<dots> < pow2 1024" by (simp add: pow2_def)
  finally have small: "\<not> pow2 1024 \<le> x" by simp
  have "round_double x = Fin x"
    using xpos y small by (simp add: round_double_def e_def Let_def)
  then show ?thesis by (simp add: x_def)
qed

lemma round_double_int_exact:
  assumes "\<bar>n\<bar> \<le> 2 ^ 53"
  shows "round_double (of_int n) = Fin (of_int n)"
proof -
  consider "n = 0" | "0 < n" | "n < 0" by linarith
  then show ?thesis
  proof cases
    case 1
    then show ?thesis by (simp add: round_double_def)
  next
    case 2
    then show ?thesis using assms by (intro round_double_pos_int_exact) simp_all
  next
    case 3
    then have "round_double (of_int (- n)) = Fin (of_int (- n))"
      using assms by (intro round_double_pos_int_exact) simp_all
    then have "round_double (- of_int (- n)) = Fin (of_int n)"
      by (simp only: round_double_minus) simp
    then show ?thesis by simp
  qed
qed

lemma fadd_int_exact:
  assumes "\<bar>a + b\<bar> \<le> 2 ^ 53"
  shows "fadd (Fin (of_int a)) (Fin (of_int b)) = Fin (of_int (a + b))"
  using round_double_int_exact [OF assms] by simp

lemma fsub_int_exact:
  assumes "\<bar>a - b\<bar> \<le> 2 ^ 53"
  shows "fsub (Fin (of_int a)) (Fin (of_int b)) = Fin (of_int (a - b))"
  using round_double_int_exact [OF assms] by (simp add: fsub_def)

lemma lower_ascii_digits: "list_all is_ascii_digit ds \<Longrightarrow> map lower_ascii ds = ds"
  by (induction ds) (simp_all add: lower_ascii_def is_ascii_digit_def)

lemma py_float_digits:
  assumes "list_all is_ascii_digit ds" "ds \<noteq> []"
  shows "py_float ds = Inr (round_double (of_nat (digits_value ds)))"
proof -
  have strip: "strip_spaces ds = ds"
    using digits_hd_last [OF assms] assms(2) by (intro strip_spaces_id) (auto dest: digit_not_space)
  obtain c cs where ds: "ds = c # cs" using assms(2) by (cases ds) auto
  have c: "is_ascii_digit c" using assms(1) by (simp add: ds)
  then have "map lower_ascii ds \<noteq> pystr ''inf''" "map lower_ascii ds \<noteq> pystr ''infinity''"
    "map lower_ascii ds \<noteq> pystr ''nan''"
    unfolding lower_ascii_digits [OF assms(1)] by (auto simp: ds pystr_def is_ascii_digit_def)
  then have inf: "parse_inf_or_nan ds = None"
    by (simp add: parse_inf_or_nan_def split_sign_digits [OF assms])
  have tw: "takeWhile is_ascii_digit ds = ds" "dropWhile is_ascii_digit ds = []"
    using assms(1) by (simp_all add: list_all_iff)
  have dec: "parse_decimal ds = Some (of_nat (digits_value ds))"
    using assms(2)
    by (simp add: parse_decimal_def split_sign_digits [OF assms] tw parse_exponent_def pow10_def)
  show ?thesis
    by (simp add: py_float_def to_ascii_digits [OF assms(1)] strip
        drop_underscores_digits [OF assms(1)] assms(2) inf dec)
qed

section \<open>The balance\<close>

lemma category_sum_nonneg: "0 \<le> category_sum label rows"
proof -
  have "0 \<le> row_amount label t" for t
    by (induction label t rule: row_amount.induct) simp_all
  then show ?thesis by (auto simp: category_sum_def intro!: sum_list_nonneg)
qed

lemma category_sum_Cons:
  "category_sum label (t # rows) = row_amount label t + category_sum label rows"
  by (simp add: category_sum_def)

lemma labels_differ: "income_label \<noteq> expense_label"
  by (simp add: income_label_def expense_label_def)

lemma py_float_digits_total:
  assumes "list_all is_ascii_digit a" "a \<noteq> []"
  shows "\<exists>f. py_float a = Inr f"
  by (simp add: py_float_digits [OF assms])

lemma py_float_digits_exact:
  assumes "list_all is_ascii_digit a" "a \<noteq> []" "int (digits_value a) \<le> 2 ^ 53"
  shows "py_float a = Inr (Fin (of_nat (digits_value a)))"
proof -
  have "round_double (of_int (int (digits_value a))) = Fin (of_int (int (digits_value a)))"
    using assms(3) by (intro round_double_int_exact) simp
  then show ?thesis by (simp add: py_float_digits [OF assms(1,2)])
qed

lemma fadd_int_nat_exact:
  assumes "\<bar>b + int v\<bar> \<le> 2 ^ 53"
  shows "fadd (Fin (of_int b)) (Fin (of_nat v)) = Fin (of_int (b + int v))"
  using fadd_int_exact [OF assms] by simp

lemma fsub_int_nat_exact:
  assumes "\<bar>b - int v\<bar> \<le> 2 ^ 53"
  shows "fsub (Fin (of_int b)) (Fin (of_nat v)) = Fin (of_int (b - int v))"
  using fsub_int_exact [OF assms] by simp

lemma balance_loop_exact:
  assumes "\<forall>t\<in>set rows. digit_amount t"
    and "\<bar>b\<bar> + category_sum income_label rows + category_sum expense_label rows \<le> 2 ^ 53"
  shows "balance_loop (Fin (of_int b)) rows
     = Inr (Fin (of_int (b + category_sum income_label rows - category_sum expense_label rows)))"
  using assms
proof (induction rows arbitrary: b)
  case Nil
  show ?case by (simp add: category_sum_def)
next
  case (Cons t rows)
  from Cons.prems(1) have "digit_amount t" by simp
  then obtain d c a rest where t: "t = d # c # a # rest" and a: "a \<noteq> []" "list_all is_ascii_digit a"
    by (cases t rule: digit_amount.cases) auto
  have get: "list_getitem t 2 = Inr a" "list_getitem t 1 = Inr c"
    by (simp_all add: t list_getitem_def)
  have rest: "\<forall>t\<in>set rows. digit_amount t" using Cons.prems(1) by simp
  note nn = category_sum_nonneg [of income_label rows] category_sum_nonneg [of expense_label rows]
  let ?v = "int (digits_value a)"
  show ?case
  proof (cases "c = income_label")
    case True
    then have sums: "category_sum income_label (t # rows) = ?v + category_sum income_label rows"
      "category_sum expense_label (t # rows) = category_sum expense_label rows"
      using labels_differ by (simp_all add: category_sum_Cons t)
    have v: "?v \<le> 2 ^ 53" using Cons.prems(2) nn unfolding sums by linarith
    have pf: "py_float a = Inr (Fin (of_nat (digits_value a)))"
      using a v by (intro py_float_digits_exact)
    have "\<bar>b + ?v\<bar> \<le> 2 ^ 53" using Cons.prems(2) nn unfolding sums by linarith
    then have add: "fadd (Fin (of_int b)) (Fin (of_nat (digits_value a))) = Fin (of_int (b + ?v))"
      by (rule fadd_int_nat_exact)
    have "\<bar>b + ?v\<bar> + category_sum income_label rows + category_sum expense_label rows \<le> 2 ^ 53"
      using Cons.prems(2) unfolding sums by linarith
    from Cons.IH [OF rest this] show ?thesis
      unfolding sums by (simp add: get pf add True algebra_simps del: fadd.simps(1))
  next
    case notinc: False
    show ?thesis
    proof (cases "c = expense_label")
      case True
      then have sums: "category_sum income_label (t # rows) = category_sum income_label rows"
        "category_sum expense_label (t # rows) = ?v + category_sum expense_label rows"
        using labels_differ by (simp_all add: category_sum_Cons t)
      have v: "?v \<le> 2 ^ 53" using Cons.prems(2) nn unfolding sums by linarith
      have pf: "py_float a = Inr (Fin (of_nat (digits_value a)))"
        using a v by (intro py_float_digits_exact)
      have "\<bar>b - ?v\<bar> \<le> 2 ^ 53" using Cons.prems(2) nn unfolding sums by linarith
      then have sub: "fsub (Fin (of_int b)) (Fin (of_nat (digits_value a))) = Fin (of_int (b - ?v))"
        by (rule fsub_int_nat_exact)
      have "\<bar>b - ?v\<bar> + category_sum income_label rows + category_sum expense_label rows \<le> 2 ^ 53"
        using Cons.prems(2) unfolding sums by linarith
      from Cons.IH [OF rest this] show ?thesis
        unfolding sums
        by (simp add: get pf sub True labels_differ [symmetric] algebra_simps del: fadd.simps(1))
    next
      case False
      with notinc have sums: "category_sum income_label (t # rows) = category_sum income_label rows"
        "category_sum expense_label (t # rows) = category_sum expense_label rows"
        by (simp_all add: category_sum_Cons t)
      obtain f where pf: "py_float a = Inr f" using py_float_digits_total [OF a(2,1)] by blast
      from Cons.IH [OF rest] Cons.prems(2) show ?thesis
        unfolding sums by (simp add: get pf False notinc)
    qed
  qed
qed

text \<open>
  C6 (as amended). When every amount of the store is a non-empty string of digits and
  the amounts of the income and expense rows add up to \<open>2 ^ 53\<close> at most, \<open>show_balance\<close>
  returns exactly the sum of the income amounts minus the sum of the expense amounts;
  the rows of any other category add nothing.
\<close>

theorem balance_exact_below_2_53:
  assumes "load_transactions self fs = Inr rows"
    and "\<forall>t\<in>set rows. digit_amount t"
    and "category_sum income_label rows + category_sum expense_label rows \<le> 2 ^ 53"
  shows "show_balance self fs
     = Inr (Fin (of_int (category_sum income_label rows - category_sum expense_label rows)))"
proof -
  have "balance_loop (Fin (of_int 0)) rows
     = Inr (Fin (of_int (0 + category_sum income_label rows - category_sum expense_label rows)))"
    using assms(2,3) by (intro balance_loop_exact) simp_all
  then show ?thesis using assms(1) by (simp add: show_balance_def)
qed

theorem balance_exact_below_2_53_witness:
  "show_balance ledger (store_of [salary_row, food_row, bonus_row]) = Inr (Fin 750)"
  using balance_exact_below_2_53 [where fs = "store_of [salary_row, food_row, bonus_row]"
      and self = ledger and rows = "[salary_row, food_row, bonus_row]"]
  unfolding load_examples
  by (simp add: salary_row_def food_row_def bonus_row_def category_sum_def
      labels_differ labels_differ [symmetric] pystr_def is_ascii_digit_def digits_value_def)

lemma floor_rat_numeral_div:
  "\<lfloor>(numeral a :: rat) / numeral b\<rfloor> = numeral a div numeral b"
  using floor_divide_of_int_eq [of "numeral a" "numeral b", where ?'a = rat] by simp

lemma bitlen_numeral_eval: "bitlen (numeral k) = bitlen (numeral k div 2) + 1"
  by (subst compute_bitlen) simp

lemma bitlen_one: "bitlen 1 = 1"
  by (subst compute_bitlen) simp

lemma round_double_2_53_plus_1: "round_double 9007199254740993 = Fin 9007199254740992"
  by (simp add: round_double_def ilog2_def pow2_def round_half_even_def Let_def
      bitlen_numeral_eval bitlen_one floor_rat_numeral_div)

lemma py_float_one: "py_float (pystr ''1'') = Inr (Fin 1)"
  using py_float_digits_exact [of "pystr ''1''"]
  by (simp add: pystr_def is_ascii_digit_def digits_value_def)

lemma py_float_2_53: "py_float (pystr ''9007199254740992'') = Inr (Fin 9007199254740992)"
  using py_float_digits_exact [of "pystr ''9007199254740992''"]
  by (simp add: pystr_def is_ascii_digit_def digits_value_def)

lemma large_steps:
  "fsub (Fin 0) (Fin 1) = Fin (- 1)"
  "fadd (Fin (- 1)) (Fin 9007199254740992) = Fin 9007199254740991"
  "fadd (Fin 9007199254740991) (Fin 1) = Fin 9007199254740992"
  "fadd (Fin 9007199254740992) (Fin 1) = Fin 9007199254740992"
  "fadd (Fin 0) (Fin 9007199254740992) = Fin 9007199254740992"
  "fadd (Fin 0) (Fin 1) = Fin 1"
  "fsub (Fin 9007199254740992) (Fin 1) = Fin 9007199254740991"
  using fsub_int_exact [of 0 1] fadd_int_exact [of "- 1" 9007199254740992]
    fadd_int_exact [of 9007199254740991 1] fadd_int_exact [of 0 9007199254740992]
    fadd_int_exact [of 0 1] fsub_int_exact [of 9007199254740992 1]
  by (simp_all add: round_double_2_53_plus_1 fsub_def)

lemma large_rows_sums:
  "category_sum income_label large_rows = 9007199254740994"
  "category_sum expense_label large_rows = 1"
  by (simp_all add: category_sum_def large_rows_def labels_differ labels_differ [symmetric]
      digits_value_def pystr_def)

text \<open>
  C6 as stated fails beyond \<open>2 ^ 53\<close>, where the floating-point additions round: for an
  expense of 1 and incomes of 9007199254740992, 1 and 1 the balance returned is
  9007199254740992, the exact one is 9007199254740993, and the difference of the two
  floating-point totals that \<open>show_profit\<close> and \<open>show_expenses\<close> return is
  9007199254740991.
\<close>

theorem balance_not_exact_counterexample:
  "show_balance ledger (store_of large_rows) = Inr (Fin 9007199254740992) \<and>
   category_sum income_label large_rows - category_sum expense_label large_rows
     = 9007199254740993 \<and>
   map_sum id snd (show_profit ledger (store_of large_rows)) = Inr (Fin 9007199254740992) \<and>
   map_sum id snd (show_expenses ledger (store_of large_rows)) = Inr (Fin 1) \<and>
   fsub (Fin 9007199254740992) (Fin 1) = Fin 9007199254740991"
proof -
  have "show_balance ledger (store_of large_rows) = Inr (Fin 9007199254740992)"
    unfolding show_balance_def load_examples
    by (simp add: large_rows_def
        list_getitem_def py_float_one py_float_2_53 large_steps labels_differ
        labels_differ [symmetric] del: fadd.simps(1))
  moreover have "map_sum id snd (show_profit ledger (store_of large_rows))
      = Inr (Fin 9007199254740992)"
    unfolding show_profit_def load_examples
    by (simp add: large_rows_def
        list_getitem_def py_float_one py_float_2_53 large_steps labels_differ
        labels_differ [symmetric] del: fadd.simps(1))
  moreover have "map_sum id snd (show_expenses ledger (store_of large_rows)) = Inr (Fin 1)"
    unfolding show_expenses_def load_examples
    by (simp add: large_rows_def
        list_getitem_def py_float_one py_float_2_53 large_steps labels_differ
        labels_differ [symmetric] del: fadd.simps(1))
  ultimately show ?thesis
    by (simp only: large_rows_sums large_steps) simp
qed

lemma py_float_1000: "py_float [49, 48, 48, 48] = Inr (Fin 1000)"
  using py_float_digits_exact [of "[49, 48, 48, 48]"]
  by (simp add: is_ascii_digit_def digits_value_def)

lemma py_float_abc: "py_float [97, 98, 99] = Inl ValueError"
  by (simp add: py_float_def to_ascii_char_def strip_spaces_def is_py_space_def
     is_ascii_digit_def parse_inf_or_nan_def parse_decimal_def lower_ascii_def pystr_def)

lemma fadd_0_1000: "fadd (Fin 0) (Fin 1000) = Fin 1000"
  using fadd_int_exact [of 0 1000] by simp

text \<open>
  C2. \<open>show_balance\<close> does not skip a row of another category whatever its amount is:
  it converts the amount before it looks at the category, so the row \<open>['2024-05-05',
  'Transfer', 'abc', 'to savings']\<close> makes it raise \<open>ValueError\<close>. \<open>show_profit\<close> and
  \<open>show_expenses\<close>, which test the category first, skip the same row.
\<close>

theorem balance_converts_before_category:
  "show_balance ledger (store_of [salary_row, transfer_row]) = Inl ValueError \<and>
   show_profit ledger (store_of [salary_row, transfer_row]) = Inr ([salary_row], Fin 1000) \<and>
   show_expenses ledger (store_of [salary_row, transfer_row]) = Inr ([], Fin 0)"
  unfolding show_balance_def show_profit_def show_expenses_def load_examples
  by (simp add: salary_row_def transfer_row_def list_getitem_def py_float_1000 py_float_abc fadd_0_1000
      income_label_def expense_label_def pystr_def del: fadd.simps(1))

end
